theory Spec2Isabelle
  imports Main
begin

section \<open>Values, closures and the store\<close>

text \<open>
  The three built-in states of a container (\<open>PROMISE_STATUS\<close>).
\<close>

datatype pstate = Pending | Fulfilled | Rejected

text \<open>
  JavaScript values that flow through the promise engine. Primitives are \<open>VUndef\<close>,
  \<open>VNull\<close>, \<open>VNum\<close> and \<open>VStr\<close>. The others are objects: an error created by
  \<open>new TypeError(msg)\<close>, a reference to an array in the store, an outcome record of
  \<open>allSettled\<close>, a reference to an instance of \<open>_Promise\<close>, an object without a
  callable \<open>then\<close> member, an object whose \<open>then\<close> getter raises, and a foreign
  thenable. The body of a foreign \<open>then(a, b)\<close> (and of a user executor
  \<open>(resolve, reject) => ...\<close>) is a straight-line script over its two parameters:
  call the first, call the second, throw, or defer a script to a timer
  (\<open>setTimeout\<close>). An exception that a called parameter raises is not caught by
  the script and leaves it.
\<close>

datatype val =
    VUndef
  | VNull
  | VNum int
  | VStr string
  | VTypeError string
  | VArr nat
  | VOutcome pstate val
  | VPromise nat
  | VObject
  | VGetterThrows val
  | VThenable "action list"
and action =
    Resolve val
  | Reject val
  | Throw val
  | Later "action list"

text \<open>A user function: a label under which its calls are traced, and its pure body
  from the argument list to a thrown (\<open>Inl\<close>) or returned (\<open>Inr\<close>) value.\<close>

type_synonym ufun = "nat \<times> (val list \<Rightarrow> val + val)"

text \<open>
  The closures of the source, defunctionalised. \<open>FResolve p\<close> and \<open>FReject p\<close> are
  \<open>this.#resolve.bind(this)\<close> and \<open>this.#reject.bind(this)\<close> of container \<open>p\<close>;
  \<open>OnResolved l q\<close> and \<open>OnRejected l q\<close> are the two arrow functions that
  \<open>#resolveNextPromise\<close> passes to a thenable, sharing the cell \<open>l\<close> of
  \<open>HAS_CALLED\<close>; \<open>Identity\<close> and \<open>Thrower\<close> are the defaults of \<open>then\<close>;
  \<open>FinallyOk\<close> and \<open>FinallyErr\<close> are the two handlers of \<open>finally\<close>;
  \<open>AllItem c a i P\<close> is the fulfilment handler of \<open>all\<close> for position \<open>i\<close>, closed
  over the cells of \<open>restNum\<close> and \<open>results\<close>; \<open>SettledOk\<close> and \<open>SettledErr\<close> are
  the two handlers of \<open>allSettled\<close>.
\<close>

datatype fn =
    FResolve nat
  | FReject nat
  | OnResolved nat nat
  | OnRejected nat nat
  | Identity
  | Thrower
  | FinallyOk ufun
  | FinallyErr ufun
  | AllItem nat nat nat nat
  | SettledOk nat nat nat nat
  | SettledErr nat nat nat nat
  | User ufun

text \<open>
  The four closures that \<open>then\<close> hands to \<open>createMicroTask\<close>: the receiver, the
  handler and the container \<open>nextPromise\<close>. A fulfilment task reads \<open>#result\<close>, a
  rejection task reads \<open>#reason\<close>.
\<close>

datatype task =
    FulfilledTask nat fn nat
  | RejectedTask nat fn nat

record promise =
  state :: pstate
  result :: val
  reason :: val
  onFulfilledCallbacks :: "task list"
  onRejectedCallbacks :: "task list"

datatype event =
    Called nat "val list"
  | Uncaught val

text \<open>
  The world: the containers by address, the \<open>HAS_CALLED\<close> cells, the \<open>restNum\<close>
  cells and the \<open>results\<close> arrays (with holes), the microtask queue, the timer
  queue (a deferred script with the two functions it was given), and the trace of
  user-function calls and uncaught exceptions.
\<close>

record world =
  heap :: "nat \<Rightarrow> promise"
  next_promise :: nat
  latches :: "nat \<Rightarrow> bool"
  next_latch :: nat
  counters :: "nat \<Rightarrow> int"
  next_counter :: nat
  arrays :: "nat \<Rightarrow> val option list"
  next_array :: nat
  microtasks :: "task list"
  timers :: "(action list \<times> fn \<times> fn) list"
  trace :: "event list"

definition fresh_promise :: promise where
  "fresh_promise =
     \<lparr>state = Pending, result = VUndef, reason = VUndef,
      onFulfilledCallbacks = [], onRejectedCallbacks = []\<rparr>"

definition empty_world :: world where
  "empty_world =
     \<lparr>heap = (\<lambda>_. fresh_promise), next_promise = 0,
      latches = (\<lambda>_. False), next_latch = 0,
      counters = (\<lambda>_. 0), next_counter = 0,
      arrays = (\<lambda>_. []), next_array = 0,
      microtasks = [], timers = [], trace = []\<rparr>"

text \<open>Allocation of a container with its field initialisers.\<close>

definition new_promise :: "world \<Rightarrow> nat \<times> world" where
  "new_promise s =
     (next_promise s,
      s\<lparr>heap := (heap s)(next_promise s := fresh_promise),
        next_promise := Suc (next_promise s)\<rparr>)"

definition new_latch :: "world \<Rightarrow> nat \<times> world" where
  "new_latch s =
     (next_latch s,
      s\<lparr>latches := (latches s)(next_latch s := False),
        next_latch := Suc (next_latch s)\<rparr>)"

definition new_counter :: "world \<Rightarrow> nat \<times> world" where
  "new_counter s =
     (next_counter s,
      s\<lparr>counters := (counters s)(next_counter s := 0),
        next_counter := Suc (next_counter s)\<rparr>)"

definition new_array :: "world \<Rightarrow> nat \<times> world" where
  "new_array s =
     (next_array s,
      s\<lparr>arrays := (arrays s)(next_array s := []),
        next_array := Suc (next_array s)\<rparr>)"

definition set_latch :: "nat \<Rightarrow> world \<Rightarrow> world" where
  "set_latch l s = s\<lparr>latches := (latches s)(l := True)\<rparr>"

text \<open>\<open>results[index] = v\<close>: JavaScript extends the array with holes.\<close>

definition arr_set :: "val option list \<Rightarrow> nat \<Rightarrow> val \<Rightarrow> val option list" where
  "arr_set xs i v =
     (if i < length xs then xs[i := Some v]
      else xs @ replicate (i - length xs) None @ [Some v])"

section \<open>Scheduling and settlement\<close>

text \<open>\<open>createMicroTask\<close>: every branch of the source defers \<open>fn\<close> to a queue.\<close>

definition createMicroTask :: "task \<Rightarrow> world \<Rightarrow> world" where
  "createMicroTask t s = s\<lparr>microtasks := microtasks s @ [t]\<rparr>"

text \<open>
  The two \<open>while\<close> loops of \<open>#resolve\<close> and \<open>#reject\<close>: \<open>shift()\<close> removes the
  first entry, which is then invoked. Every entry was pushed by \<open>then\<close> and is
  \<open>() => createMicroTask(...)\<close>.
\<close>

function drainFulfilled :: "nat \<Rightarrow> world \<Rightarrow> world" where
  "drainFulfilled p s =
     (case onFulfilledCallbacks (heap s p) of
        [] \<Rightarrow> s
      | t # ts \<Rightarrow>
          drainFulfilled p
            (createMicroTask t
               (s\<lparr>heap := (heap s)(p := (heap s p)\<lparr>onFulfilledCallbacks := ts\<rparr>)\<rparr>)))"
  by pat_completeness auto
termination
  by (relation "measure (\<lambda>(p, s). length (onFulfilledCallbacks (heap s p)))")
     (auto simp: createMicroTask_def)

function drainRejected :: "nat \<Rightarrow> world \<Rightarrow> world" where
  "drainRejected p s =
     (case onRejectedCallbacks (heap s p) of
        [] \<Rightarrow> s
      | t # ts \<Rightarrow>
          drainRejected p
            (createMicroTask t
               (s\<lparr>heap := (heap s)(p := (heap s p)\<lparr>onRejectedCallbacks := ts\<rparr>)\<rparr>)))"
  by pat_completeness auto
termination
  by (relation "measure (\<lambda>(p, s). length (onRejectedCallbacks (heap s p)))")
     (auto simp: createMicroTask_def)

text \<open>\<open>#resolve(result)\<close> and \<open>#reject(reason)\<close>.\<close>

definition settleFulfilled :: "nat \<Rightarrow> val \<Rightarrow> world \<Rightarrow> world" where
  "settleFulfilled p v s =
     (if state (heap s p) \<noteq> Pending then s
      else drainFulfilled p
             (s\<lparr>heap := (heap s)(p := (heap s p)\<lparr>result := v, state := Fulfilled\<rparr>)\<rparr>))"

definition settleRejected :: "nat \<Rightarrow> val \<Rightarrow> world \<Rightarrow> world" where
  "settleRejected p v s =
     (if state (heap s p) \<noteq> Pending then s
      else drainRejected p
             (s\<lparr>heap := (heap s)(p := (heap s p)\<lparr>reason := v, state := Rejected\<rparr>)\<rparr>))"

section \<open>Chaining\<close>

text \<open>
  \<open>then(onFulfilled, onRejected)\<close>. An argument that is not a function is \<open>None\<close>.
  The executor of \<open>nextPromise\<close> runs during construction and cannot raise.
\<close>

definition then_op :: "nat \<Rightarrow> fn option \<Rightarrow> fn option \<Rightarrow> world \<Rightarrow> nat \<times> world" where
  "then_op p onFulfilled onRejected s =
     (let onF = (case onFulfilled of Some f \<Rightarrow> f | None \<Rightarrow> Identity);
          onR = (case onRejected of Some f \<Rightarrow> f | None \<Rightarrow> Thrower);
          (q, s1) = new_promise s
      in case state (heap s1 p) of
           Fulfilled \<Rightarrow> (q, createMicroTask (FulfilledTask p onF q) s1)
         | Rejected \<Rightarrow> (q, createMicroTask (RejectedTask p onR q) s1)
         | Pending \<Rightarrow>
             (q, s1\<lparr>heap := (heap s1)(p := (heap s1 p)
                      \<lparr>onFulfilledCallbacks :=
                         onFulfilledCallbacks (heap s1 p) @ [FulfilledTask p onF q],
                       onRejectedCallbacks :=
                         onRejectedCallbacks (heap s1 p) @ [RejectedTask p onR q]\<rparr>)\<rparr>))"

definition catch_op :: "nat \<Rightarrow> fn option \<Rightarrow> world \<Rightarrow> nat \<times> world" where
  "catch_op p onRejected s = then_op p None onRejected s"

definition finally_op :: "nat \<Rightarrow> ufun \<Rightarrow> world \<Rightarrow> nat \<times> world" where
  "finally_op p callback s =
     then_op p (Some (FinallyOk callback)) (Some (FinallyErr callback)) s"

section \<open>The resolution procedure\<close>

text \<open>\<open>typeof value === "object" || typeof value === "function"\<close>, and not \<open>null\<close>.\<close>

fun is_object :: "val \<Rightarrow> bool" where
  "is_object VUndef = False"
| "is_object VNull = False"
| "is_object (VNum n) = False"
| "is_object (VStr x) = False"
| "is_object v = True"

text \<open>The \<open>catch\<close> clause of \<open>#resolveNextPromise\<close>.\<close>

definition catch_latched :: "nat \<Rightarrow> nat \<Rightarrow> val \<Rightarrow> world \<Rightarrow> world" where
  "catch_latched l promise error s =
     (if latches s l then s else settleRejected promise error (set_latch l s))"

text \<open>
  Calling a function value with one argument, \<open>#resolveNextPromise\<close>, and running a
  script with the two functions it was given. The parameters \<open>resolve\<close> and
  \<open>reject\<close> of \<open>#resolveNextPromise\<close> are at each call site the settlement
  functions of \<open>promise\<close>, so they are not passed. The results are \<open>Inl\<close> for a
  raised value and \<open>Inr\<close> for a normal return.
\<close>

fun call_fn :: "fn \<Rightarrow> val \<Rightarrow> world \<Rightarrow> (val + val) \<times> world"
and resolveNextPromise :: "nat \<Rightarrow> val \<Rightarrow> world \<Rightarrow> (val + unit) \<times> world"
and run_script :: "action list \<Rightarrow> fn \<Rightarrow> fn \<Rightarrow> world \<Rightarrow> (val + unit) \<times> world"
where
  "call_fn (FResolve p) v s = (Inr VUndef, settleFulfilled p v s)"
| "call_fn (FReject p) v s = (Inr VUndef, settleRejected p v s)"
| "call_fn (OnResolved l q) v s =
     (if latches s l then (Inr VUndef, s)
      else (case resolveNextPromise q v (set_latch l s) of
              (Inl e, s1) \<Rightarrow> (Inl e, s1)
            | (Inr u, s1) \<Rightarrow> (Inr VUndef, s1)))"
| "call_fn (OnRejected l q) v s =
     (if latches s l then (Inr VUndef, s)
      else (Inr VUndef, settleRejected q v (set_latch l s)))"
| "call_fn Identity v s = (Inr v, s)"
| "call_fn Thrower v s = (Inl v, s)"
| "call_fn (FinallyOk callback) v s =
     (case snd callback [] of
        Inl e \<Rightarrow> (Inl e, s\<lparr>trace := trace s @ [Called (fst callback) []]\<rparr>)
      | Inr r \<Rightarrow> (Inr v, s\<lparr>trace := trace s @ [Called (fst callback) []]\<rparr>))"
| "call_fn (FinallyErr callback) v s =
     (case snd callback [] of
        Inl e \<Rightarrow> (Inl e, s\<lparr>trace := trace s @ [Called (fst callback) []]\<rparr>)
      | Inr r \<Rightarrow> (Inl v, s\<lparr>trace := trace s @ [Called (fst callback) []]\<rparr>))"
| "call_fn (AllItem c a i P) v s =
     (let s1 = s\<lparr>arrays := (arrays s)(a := arr_set (arrays s a) i v)\<rparr>;
          s2 = s1\<lparr>counters := (counters s1)(c := counters s1 c - 1)\<rparr>
      in if counters s2 c = 0 then (Inr VUndef, settleFulfilled P (VArr a) s2)
         else (Inr VUndef, s2))"
| "call_fn (SettledOk c a i P) v s =
     (let s1 = s\<lparr>arrays := (arrays s)(a := arr_set (arrays s a) i (VOutcome Fulfilled v))\<rparr>;
          s2 = s1\<lparr>counters := (counters s1)(c := counters s1 c - 1)\<rparr>
      in if counters s2 c = 0 then (Inr VUndef, settleFulfilled P (VArr a) s2)
         else (Inr VUndef, s2))"
| "call_fn (SettledErr c a i P) v s =
     (let s1 = s\<lparr>arrays := (arrays s)(a := arr_set (arrays s a) i (VOutcome Rejected v))\<rparr>;
          s2 = s1\<lparr>counters := (counters s1)(c := counters s1 c - 1)\<rparr>
      in if counters s2 c = 0 then (Inr VUndef, settleFulfilled P (VArr a) s2)
         else (Inr VUndef, s2))"
| "call_fn (User f) v s = (snd f [v], s\<lparr>trace := trace s @ [Called (fst f) [v]]\<rparr>)"
| "resolveNextPromise promise value s =
     (if value = VPromise promise then (Inl (VTypeError ''No cycle chaining''), s)
      else if is_object value then
        (case value of
           VThenable acts \<Rightarrow>
             (case run_script acts
                     (OnResolved (next_latch s) promise) (OnRejected (next_latch s) promise)
                     (snd (new_latch s)) of
                (Inl error, s2) \<Rightarrow> (Inr (), catch_latched (next_latch s) promise error s2)
              | (Inr u, s2) \<Rightarrow> (Inr (), s2))
         | VPromise r \<Rightarrow>
             (Inr (), snd (then_op r (Some (OnResolved (next_latch s) promise))
                                     (Some (OnRejected (next_latch s) promise))
                                     (snd (new_latch s))))
         | VGetterThrows error \<Rightarrow>
             (Inr (), catch_latched (next_latch s) promise error (snd (new_latch s)))
         | _ \<Rightarrow>
             (if latches (snd (new_latch s)) (next_latch s) then (Inr (), snd (new_latch s))
              else (Inr (), settleFulfilled promise value
                              (set_latch (next_latch s) (snd (new_latch s))))))
      else (Inr (), settleFulfilled promise value s))"
| "run_script [] f g s = (Inr (), s)"
| "run_script (Resolve v # rest) f g s =
     (case call_fn f v s of
        (Inl e, s1) \<Rightarrow> (Inl e, s1)
      | (Inr r, s1) \<Rightarrow> run_script rest f g s1)"
| "run_script (Reject v # rest) f g s =
     (case call_fn g v s of
        (Inl e, s1) \<Rightarrow> (Inl e, s1)
      | (Inr r, s1) \<Rightarrow> run_script rest f g s1)"
| "run_script (Throw e # rest) f g s = (Inl e, s)"
| "run_script (Later acts # rest) f g s =
     run_script rest f g (s\<lparr>timers := timers s @ [(acts, f, g)]\<rparr>)"

section \<open>Construction and the static methods\<close>

text \<open>An argument of the constructor: not a function, or a function with its body.\<close>

datatype executor = NotCallable | Executor "action list"

text \<open>
  \<open>constructor(executor)\<close>: the type check raises out of the construction, an
  exception of the executor rejects the new container.
\<close>

definition construct :: "executor \<Rightarrow> world \<Rightarrow> (val + nat) \<times> world" where
  "construct executor s =
     (case executor of
        NotCallable \<Rightarrow> (Inl (VTypeError ''_Promise executor is not a function''), s)
      | Executor acts \<Rightarrow>
          (let (p, s1) = new_promise s
           in case run_script acts (FResolve p) (FReject p) s1 of
                (Inl error, s2) \<Rightarrow> (Inr p, settleRejected p error s2)
              | (Inr u, s2) \<Rightarrow> (Inr p, s2)))"

text \<open>
  \<open>static resolve(value)\<close>. The \<open>then\<close> member of a thenable is called with the
  settlement functions of the new container themselves.
\<close>

definition resolve_static :: "val \<Rightarrow> world \<Rightarrow> nat \<times> world" where
  "resolve_static value s =
     (case value of
        VPromise r \<Rightarrow> (r, s)
      | _ \<Rightarrow>
          (let (p, s1) = new_promise s
           in if is_object value then
                (case value of
                   VGetterThrows error \<Rightarrow> (p, settleRejected p error s1)
                 | VThenable acts \<Rightarrow>
                     (case run_script acts (FResolve p) (FReject p) s1 of
                        (Inl error, s2) \<Rightarrow> (p, settleRejected p error s2)
                      | (Inr u, s2) \<Rightarrow> (p, s2))
                 | VPromise r \<Rightarrow>
                     (p, snd (then_op r (Some (FResolve p)) (Some (FReject p)) s1))
                 | _ \<Rightarrow> (p, settleFulfilled p value s1))
              else (p, settleFulfilled p value s1)))"

text \<open>\<open>static reject(value)\<close>.\<close>

definition reject_static :: "val \<Rightarrow> world \<Rightarrow> nat \<times> world" where
  "reject_static value s = (let (p, s1) = new_promise s in (p, settleRejected p value s1))"

text \<open>
  The \<open>for\<close> loop of \<open>all\<close>: \<open>index = restNum++\<close>, then
  \<open>_Promise.resolve(item).then(handler, reject)\<close>.
\<close>

fun all_loop :: "val list \<Rightarrow> nat \<Rightarrow> nat \<Rightarrow> nat \<Rightarrow> world \<Rightarrow> world" where
  "all_loop [] c a P s = s"
| "all_loop (item # rest) c a P s =
     (let index = counters s c;
          s1 = s\<lparr>counters := (counters s)(c := index + 1)\<rparr>;
          (r, s2) = resolve_static item s1;
          (q, s3) = then_op r (Some (AllItem c a (nat index) P)) (Some (FReject P)) s2
      in all_loop rest c a P s3)"

text \<open>\<open>static all(target)\<close>; \<open>resolve([])\<close> passes a new empty array.\<close>

definition all_op :: "val list \<Rightarrow> world \<Rightarrow> nat \<times> world" where
  "all_op target s =
     (let (P, s1) = new_promise s;
          (c, s2) = new_counter s1;
          (a, s3) = new_array s2;
          s4 = all_loop target c a P s3
      in if counters s4 c = 0
         then (let (e, s5) = new_array s4 in (P, settleFulfilled P (VArr e) s5))
         else (P, s4))"

fun allSettled_loop :: "val list \<Rightarrow> nat \<Rightarrow> nat \<Rightarrow> nat \<Rightarrow> world \<Rightarrow> world" where
  "allSettled_loop [] c a P s = s"
| "allSettled_loop (item # rest) c a P s =
     (let index = counters s c;
          s1 = s\<lparr>counters := (counters s)(c := index + 1)\<rparr>;
          (r, s2) = resolve_static item s1;
          (q, s3) = then_op r (Some (SettledOk c a (nat index) P))
                              (Some (SettledErr c a (nat index) P)) s2
      in allSettled_loop rest c a P s3)"

text \<open>\<open>static allSettled(target)\<close>.\<close>

definition allSettled_op :: "val list \<Rightarrow> world \<Rightarrow> nat \<times> world" where
  "allSettled_op target s =
     (let (P, s1) = new_promise s;
          (c, s2) = new_counter s1;
          (a, s3) = new_array s2;
          s4 = allSettled_loop target c a P s3
      in if counters s4 c = 0
         then (let (e, s5) = new_array s4 in (P, settleFulfilled P (VArr e) s5))
         else (P, s4))"

section \<open>The host: microtasks and timers\<close>

text \<open>
  The body of the closure given to \<open>createMicroTask\<close>: call the handler on the
  receiver's \<open>#result\<close> (or \<open>#reason\<close>), feed what it returns to
  \<open>#resolveNextPromise\<close>, and reject \<open>nextPromise\<close> with whatever is raised.
\<close>

fun run_task :: "task \<Rightarrow> world \<Rightarrow> world" where
  "run_task (FulfilledTask p h q) s =
     (case call_fn h (result (heap s p)) s of
        (Inl error, s1) \<Rightarrow> settleRejected q error s1
      | (Inr value, s1) \<Rightarrow>
          (case resolveNextPromise q value s1 of
             (Inl error, s2) \<Rightarrow> settleRejected q error s2
           | (Inr u, s2) \<Rightarrow> s2))"
| "run_task (RejectedTask p h q) s =
     (case call_fn h (reason (heap s p)) s of
        (Inl error, s1) \<Rightarrow> settleRejected q error s1
      | (Inr value, s1) \<Rightarrow>
          (case resolveNextPromise q value s1 of
             (Inl error, s2) \<Rightarrow> settleRejected q error s2
           | (Inr u, s2) \<Rightarrow> s2))"

text \<open>A timer runs its script; an exception that leaves it is uncaught.\<close>

fun run_timer :: "action list \<times> fn \<times> fn \<Rightarrow> world \<Rightarrow> world" where
  "run_timer (acts, f, g) s =
     (case run_script acts f g s of
        (Inl error, s1) \<Rightarrow> s1\<lparr>trace := trace s1 @ [Uncaught error]\<rparr>
      | (Inr u, s1) \<Rightarrow> s1)"

text \<open>
  One turn of the host after the current synchronous segment has returned: the oldest
  microtask if there is one, otherwise the oldest timer.
\<close>

definition step :: "world \<Rightarrow> world" where
  "step s =
     (case microtasks s of
        t # ts \<Rightarrow> run_task t (s\<lparr>microtasks := ts\<rparr>)
      | [] \<Rightarrow>
          (case timers s of
             [] \<Rightarrow> s
           | tm # rest \<Rightarrow> run_timer tm (s\<lparr>timers := rest\<rparr>)))"

fun run :: "nat \<Rightarrow> world \<Rightarrow> world" where
  "run 0 s = s"
| "run (Suc n) s = run n (step s)"

definition idle :: "world \<Rightarrow> bool" where
  "idle s = (microtasks s = [] \<and> timers s = [])"

text \<open>
  What a program can do between two turns of the host, and a turn itself. A program
  is a list of such operations run in sequence.
\<close>

datatype op =
    OpConstruct executor
  | OpThen nat "fn option" "fn option"
  | OpCatch nat "fn option"
  | OpFinally nat ufun
  | OpResolve val
  | OpReject val
  | OpAll "val list"
  | OpAllSettled "val list"
  | OpTurn

fun apply_op :: "op \<Rightarrow> world \<Rightarrow> world" where
  "apply_op (OpConstruct e) s = snd (construct e s)"
| "apply_op (OpThen p f g) s = snd (then_op p f g s)"
| "apply_op (OpCatch p g) s = snd (catch_op p g s)"
| "apply_op (OpFinally p cb) s = snd (finally_op p cb s)"
| "apply_op (OpResolve v) s = snd (resolve_static v s)"
| "apply_op (OpReject v) s = snd (reject_static v s)"
| "apply_op (OpAll vs) s = snd (all_op vs s)"
| "apply_op (OpAllSettled vs) s = snd (allSettled_op vs s)"
| "apply_op OpTurn s = step s"

fun exec :: "op list \<Rightarrow> world \<Rightarrow> world" where
  "exec [] s = s"
| "exec (x # xs) s = exec xs (apply_op x s)"

section \<open>Elementary updates of the world\<close>

text \<open>
  Every function above changes the world only through the following updates. A
  property of all of them is a property of every run.
\<close>

inductive prim :: "world \<Rightarrow> world \<Rightarrow> bool" where
  p_fulfil: "prim s (settleFulfilled p v s)"
| p_reject: "prim s (settleRejected p v s)"
| p_latch: "prim s (set_latch l s)"
| p_new_latch: "prim s (snd (new_latch s))"
| p_new_promise: "prim s (snd (new_promise s))"
| p_new_counter: "prim s (snd (new_counter s))"
| p_new_array: "prim s (snd (new_array s))"
| p_then: "prim s (snd (then_op p f g s))"
| p_trace: "prim s (s\<lparr>trace := t\<rparr>)"
| p_timers: "prim s (s\<lparr>timers := ts\<rparr>)"
| p_microtasks: "prim s (s\<lparr>microtasks := ms\<rparr>)"
| p_arrays: "prim s (s\<lparr>arrays := (arrays s)(a := xs)\<rparr>)"
| p_counters: "prim s (s\<lparr>counters := (counters s)(c := n)\<rparr>)"

inductive evolves :: "world \<Rightarrow> world \<Rightarrow> bool" where
  ev_refl: "evolves s s"
| ev_step: "evolves s s1 \<Longrightarrow> prim s1 s2 \<Longrightarrow> evolves s s2"

text \<open>A settled container of \<open>s\<close> is the same record in \<open>s'\<close>.\<close>

definition frozen :: "world \<Rightarrow> world \<Rightarrow> bool" where
  "frozen s s' =
     (next_promise s \<le> next_promise s' \<and>
      (\<forall>q < next_promise s. state (heap s q) \<noteq> Pending \<longrightarrow> heap s' q = heap s q))"

section \<open>Scenarios\<close>

text \<open>
  \<open>new _Promise((resolve, reject) => { resolve(1); resolve(2); reject("e") })\<close>.
\<close>

definition settled_thrice :: world where
  "settled_thrice =
     snd (construct (Executor [Resolve (VNum 1), Resolve (VNum 2), Reject (VStr ''e'')])
            empty_world)"

text \<open>The queue that a settlement drains is empty on every container so settled.\<close>

definition drained :: "world \<Rightarrow> bool" where
  "drained s =
     (\<forall>q. (state (heap s q) = Fulfilled \<longrightarrow> onFulfilledCallbacks (heap s q) = []) \<and>
          (state (heap s q) = Rejected \<longrightarrow> onRejectedCallbacks (heap s q) = []))"

text \<open>
  A container that is pending when \<open>then\<close> is called without handlers and is
  fulfilled by a timer afterwards.
\<close>

definition late_fulfilment :: "op list" where
  "late_fulfilment =
     [OpConstruct (Executor [Later [Resolve (VNum 1)]]), OpThen 0 None None, OpTurn]"

text \<open>A container that never settles by itself, with one reaction registered.\<close>

definition pending_with_reaction :: "op list" where
  "pending_with_reaction = [OpConstruct (Executor []), OpThen 0 None None]"

text \<open>A fired latch of \<open>s\<close> is fired in \<open>s'\<close>.\<close>

definition latched :: "world \<Rightarrow> world \<Rightarrow> bool" where
  "latched s s' =
     (next_latch s \<le> next_latch s' \<and> (\<forall>l < next_latch s. latches s l \<longrightarrow> latches s' l))"

text \<open>One pending container and nothing else.\<close>

definition one_pending :: world where
  "one_pending = snd (construct (Executor []) empty_world)"

text \<open>
  The body of a \<open>then\<close> that calls back three times, and the world after the
  pending container has adopted a thenable that does so and then throws.
\<close>

definition calls_thrice :: "action list" where
  "calls_thrice = [Resolve (VNum 1), Resolve (VNum 2), Reject (VStr ''r'')]"

definition adopted_thrice :: world where
  "adopted_thrice =
     snd (resolveNextPromise 0 (VThenable (calls_thrice @ Throw (VStr ''boom'') # []))
            one_pending)"

text \<open>
  The function values that call no user code: every one but a user handler and the two
  handlers of \<open>finally\<close>.
\<close>

fun silent :: "fn \<Rightarrow> bool" where
  "silent (User f) = False"
| "silent (FinallyOk f) = False"
| "silent (FinallyErr f) = False"
| "silent f = True"

text \<open>The microtask queue of \<open>s'\<close> is the one of \<open>s\<close> with tasks appended.\<close>

definition grows :: "world \<Rightarrow> world \<Rightarrow> bool" where
  "grows s s' = (\<exists>ms. microtasks s' = microtasks s @ ms)"

text \<open>Two labelled handlers and worlds in which they are registered on one container.\<close>

definition first_handler :: ufun where
  "first_handler = (1, \<lambda>args. Inr (VStr ''a''))"

definition second_handler :: ufun where
  "second_handler = (2, \<lambda>args. Inr (VStr ''b''))"

definition fulfilled_one :: world where
  "fulfilled_one = snd (resolve_static (VNum 1) empty_world)"

definition rejected_one :: world where
  "rejected_one = snd (reject_static (VStr ''e'') empty_world)"

text \<open>
  A callback of \<open>finally\<close> that returns a rejected container, one that returns a
  thenable that rejects, and one that throws; programs that call \<open>finally\<close> with
  them on a fulfilled and on a rejected container.
\<close>

definition returns_rejected :: ufun where
  "returns_rejected = (9, \<lambda>args. Inr (VPromise 1))"

definition returns_rejecting_thenable :: ufun where
  "returns_rejecting_thenable = (9, \<lambda>args. Inr (VThenable [Reject (VStr ''e'')]))"

definition throws_late :: ufun where
  "throws_late = (9, \<lambda>args. Inl (VStr ''late''))"

definition finally_on_fulfilled :: "op list" where
  "finally_on_fulfilled =
     [OpResolve (VStr ''ok''), OpReject (VStr ''e''), OpFinally 0 returns_rejected, OpTurn]"

definition finally_on_rejected :: "op list" where
  "finally_on_rejected =
     [OpReject (VStr ''boom''), OpReject (VStr ''e''), OpFinally 0 returns_rejected, OpTurn]"

definition settled_pair :: world where
  "settled_pair = exec [OpResolve (VStr ''ok''), OpReject (VStr ''boom'')] empty_world"

text \<open>
  A handler that returns the container produced by its own \<open>then\<close> call, one
  that returns a thenable whose \<open>then\<close> calls back with that container at once,
  and one whose thenable calls back with it from a timer; in each program the
  container produced by \<open>then\<close> has address 1.
\<close>

definition returns_own :: ufun where
  "returns_own = (7, \<lambda>args. Inr (VPromise 1))"

definition returns_thenable_of_own :: ufun where
  "returns_thenable_of_own = (7, \<lambda>args. Inr (VThenable [Resolve (VPromise 1)]))"

definition returns_late_thenable_of_own :: ufun where
  "returns_late_thenable_of_own = (7, \<lambda>args. Inr (VThenable [Later [Resolve (VPromise 1)]]))"

definition cycle_direct :: "op list" where
  "cycle_direct = [OpResolve (VNum 1), OpThen 0 (Some (User returns_own)) None, OpTurn]"

definition cycle_through_thenable :: "op list" where
  "cycle_through_thenable =
     [OpResolve (VNum 1), OpThen 0 (Some (User returns_thenable_of_own)) None, OpTurn]"

definition cycle_through_late_thenable :: "op list" where
  "cycle_through_late_thenable =
     [OpResolve (VNum 1), OpThen 0 (Some (User returns_late_thenable_of_own)) None,
      OpTurn, OpTurn]"

text \<open>
  A thenable that calls back from a timer with a thenable that calls back from a timer
  with \<open>"X"\<close>.
\<close>

definition inner_thenable :: val where
  "inner_thenable = VThenable [Later [Resolve (VStr ''X'')]]"

definition nested_thenable :: val where
  "nested_thenable = VThenable [Later [Resolve inner_thenable]]"

definition resolve_nested :: "op list" where
  "resolve_nested = [OpResolve nested_thenable, OpTurn]"

section \<open>Reactions of the aggregating methods\<close>










text \<open>
  A handler that returns the nested thenable, and a program in which the resolution
  procedure of \<open>then\<close> receives it: the container produced by \<open>then\<close> has
  address 1.
\<close>

definition returns_nested :: ufun where
  "returns_nested = (8, \<lambda>args. Inr nested_thenable)"

definition then_nested :: "op list" where
  "then_nested =
     [OpResolve (VNum 1), OpThen 0 (Some (User returns_nested)) None, OpTurn, OpTurn, OpTurn]"

text \<open>
  The registrations on the container \<open>p\<close> among the operations of a program, and the
  two handlers that a registration passes to \<open>then\<close>: \<open>then\<close> replaces a missing
  handler by the identity or by the function that throws its argument, \<open>catch\<close> is
  \<open>then(null, onRejected)\<close>, and \<open>finally\<close> passes its two wrappers of the
  callback.
\<close>

fun registers :: "nat \<Rightarrow> op \<Rightarrow> bool" where
  "registers p (OpThen p' f g) = (p' = p)"
| "registers p (OpCatch p' g) = (p' = p)"
| "registers p (OpFinally p' cb) = (p' = p)"
| "registers p x = False"

fun on_fulfilled :: "op \<Rightarrow> fn" where
  "on_fulfilled (OpThen p f g) = (case f of Some h \<Rightarrow> h | None \<Rightarrow> Identity)"
| "on_fulfilled (OpFinally p cb) = FinallyOk cb"
| "on_fulfilled x = Identity"

fun on_rejected :: "op \<Rightarrow> fn" where
  "on_rejected (OpThen p f g) = (case g of Some h \<Rightarrow> h | None \<Rightarrow> Thrower)"
| "on_rejected (OpCatch p g) = (case g of Some h \<Rightarrow> h | None \<Rightarrow> Thrower)"
| "on_rejected (OpFinally p cb) = FinallyErr cb"
| "on_rejected x = Thrower"

text \<open>
  The reactions that a list of registrations on \<open>p\<close> creates when the first of the
  containers that they return gets the address \<open>q\<close>.
\<close>

fun fulfil_reactions :: "nat \<Rightarrow> nat \<Rightarrow> op list \<Rightarrow> task list" where
  "fulfil_reactions p q [] = []"
| "fulfil_reactions p q (x # xs) =
     FulfilledTask p (on_fulfilled x) q # fulfil_reactions p (Suc q) xs"

fun reject_reactions :: "nat \<Rightarrow> nat \<Rightarrow> op list \<Rightarrow> task list" where
  "reject_reactions p q [] = []"
| "reject_reactions p q (x # xs) =
     RejectedTask p (on_rejected x) q # reject_reactions p (Suc q) xs"

text \<open>
  The calls of user code that are recorded when a function value is called with \<open>v\<close>:
  a handler is called with \<open>v\<close>, the wrappers of \<open>finally\<close> call the callback
  without arguments, and the other function values are internal. The calls recorded
  when a reaction runs in \<open>s\<close>, and the container whose settlement a reaction awaits.
\<close>

fun calls :: "fn \<Rightarrow> val \<Rightarrow> event list" where
  "calls (User f) v = [Called (fst f) [v]]"
| "calls (FinallyOk cb) v = [Called (fst cb) []]"
| "calls (FinallyErr cb) v = [Called (fst cb) []]"
| "calls f v = []"

fun called :: "world \<Rightarrow> task \<Rightarrow> event list" where
  "called s (FulfilledTask p h q) = calls h (result (heap s p))"
| "called s (RejectedTask p h q) = calls h (reason (heap s p))"

fun receiver :: "task \<Rightarrow> nat" where
  "receiver (FulfilledTask p h q) = p"
| "receiver (RejectedTask p h q) = p"

text \<open>
  Three registrations on container 0: a handler by \<open>then\<close>, a callback by
  \<open>finally\<close>, and a handler of rejections by \<open>catch\<close>.
\<close>

definition labelled_callback :: ufun where
  "labelled_callback = (3, \<lambda>args. Inr VUndef)"

definition three_registrations :: "op list" where
  "three_registrations =
     [OpThen 0 (Some (User first_handler)) (Some (User second_handler)),
      OpFinally 0 labelled_callback,
      OpCatch 0 (Some (User second_handler))]"

text \<open>
  \<open>new _Promise((resolve) => resolve({}))\<close> and
  \<open>new _Promise((resolve) => resolve({ then(f, r) { r("z") } }))\<close>: a container
  fulfilled with a plain object and one fulfilled with a thenable that rejects.
\<close>

definition object_results :: world where
  "object_results =
     exec [OpConstruct (Executor [Resolve VObject]),
           OpConstruct (Executor [Resolve (VThenable [Reject (VStr ''z'')])])] empty_world"

section \<open>Items that settle after the call\<close>

text \<open>
  A settlement function of a container is called, by whoever holds it, and the host
  takes one turn; a list of such events happens in order.
\<close>

datatype settlement = Fulfils nat val | Rejects nat val


fun settle :: "settlement \<Rightarrow> world \<Rightarrow> world" where
  "settle (Fulfils r v) s = settleFulfilled r v s"
| "settle (Rejects r v) s = settleRejected r v s"













section \<open>The loops of settlement in closed form\<close>

declare drainFulfilled.simps [simp del] drainRejected.simps [simp del]
declare resolveNextPromise.simps [simp del]

lemma drainFulfilled_closed:
  "drainFulfilled p s =
     s\<lparr>heap := (heap s)(p := (heap s p)\<lparr>onFulfilledCallbacks := []\<rparr>),
       microtasks := microtasks s @ onFulfilledCallbacks (heap s p)\<rparr>"
proof (induction p s rule: drainFulfilled.induct)
  case (1 p s)
  show ?case
  proof (cases "onFulfilledCallbacks (heap s p)")
    case Nil
    then have "(heap s)(p := (heap s p)\<lparr>onFulfilledCallbacks := []\<rparr>) = heap s"
      by (cases "heap s p") (auto simp: fun_eq_iff)
    with Nil show ?thesis by (simp add: drainFulfilled.simps [of p s])
  next
    case (Cons t ts)
    have "drainFulfilled p s =
            drainFulfilled p (createMicroTask t
              (s\<lparr>heap := (heap s)(p := (heap s p)\<lparr>onFulfilledCallbacks := ts\<rparr>)\<rparr>))"
      by (subst drainFulfilled.simps) (simp add: Cons)
    also have "\<dots> =
            s\<lparr>heap := (heap s)(p := (heap s p)\<lparr>onFulfilledCallbacks := []\<rparr>),
              microtasks := microtasks s @ onFulfilledCallbacks (heap s p)\<rparr>"
      unfolding "1.IH" [OF Cons] by (simp add: createMicroTask_def Cons)
    finally show ?thesis .
  qed
qed

lemma drainRejected_closed:
  "drainRejected p s =
     s\<lparr>heap := (heap s)(p := (heap s p)\<lparr>onRejectedCallbacks := []\<rparr>),
       microtasks := microtasks s @ onRejectedCallbacks (heap s p)\<rparr>"
proof (induction p s rule: drainRejected.induct)
  case (1 p s)
  show ?case
  proof (cases "onRejectedCallbacks (heap s p)")
    case Nil
    then have "(heap s)(p := (heap s p)\<lparr>onRejectedCallbacks := []\<rparr>) = heap s"
      by (cases "heap s p") (auto simp: fun_eq_iff)
    with Nil show ?thesis by (simp add: drainRejected.simps [of p s])
  next
    case (Cons t ts)
    have "drainRejected p s =
            drainRejected p (createMicroTask t
              (s\<lparr>heap := (heap s)(p := (heap s p)\<lparr>onRejectedCallbacks := ts\<rparr>)\<rparr>))"
      by (subst drainRejected.simps) (simp add: Cons)
    also have "\<dots> =
            s\<lparr>heap := (heap s)(p := (heap s p)\<lparr>onRejectedCallbacks := []\<rparr>),
              microtasks := microtasks s @ onRejectedCallbacks (heap s p)\<rparr>"
      unfolding "1.IH" [OF Cons] by (simp add: createMicroTask_def Cons)
    finally show ?thesis .
  qed
qed

section \<open>Every function evolves the world by elementary updates\<close>

lemma evolves_prim: "prim s s1 \<Longrightarrow> evolves s s1"
  by (rule ev_step [OF ev_refl])

lemma evolves_trans: "evolves s1 s2 \<Longrightarrow> evolves s s1 \<Longrightarrow> evolves s s2"
  by (induction rule: evolves.induct) (auto intro: evolves.intros)

lemma evolves_then_prim: "prim s s1 \<Longrightarrow> evolves s1 s2 \<Longrightarrow> evolves s s2"
  by (meson evolves_prim evolves_trans)

lemma ev_fulfil: "evolves s s1 \<Longrightarrow> evolves s (settleFulfilled p v s1)"
  by (rule ev_step [OF _ p_fulfil])

lemma ev_reject: "evolves s s1 \<Longrightarrow> evolves s (settleRejected p v s1)"
  by (rule ev_step [OF _ p_reject])

lemma ev_latch: "evolves s s1 \<Longrightarrow> evolves s (set_latch l s1)"
  by (rule ev_step [OF _ p_latch])

lemma ev_new_latch: "evolves s s1 \<Longrightarrow> evolves s (snd (new_latch s1))"
  by (rule ev_step [OF _ p_new_latch])

lemma ev_new_promise: "evolves s s1 \<Longrightarrow> evolves s (snd (new_promise s1))"
  by (rule ev_step [OF _ p_new_promise])

lemma ev_new_counter: "evolves s s1 \<Longrightarrow> evolves s (snd (new_counter s1))"
  by (rule ev_step [OF _ p_new_counter])

lemma ev_new_array: "evolves s s1 \<Longrightarrow> evolves s (snd (new_array s1))"
  by (rule ev_step [OF _ p_new_array])

lemma ev_then: "evolves s s1 \<Longrightarrow> evolves s (snd (then_op p f g s1))"
  by (rule ev_step [OF _ p_then])

lemma ev_trace: "evolves s s1 \<Longrightarrow> evolves s (s1\<lparr>trace := t\<rparr>)"
  by (rule ev_step [OF _ p_trace])

lemma ev_timers: "evolves s s1 \<Longrightarrow> evolves s (s1\<lparr>timers := t\<rparr>)"
  by (rule ev_step [OF _ p_timers])

lemma ev_microtasks: "evolves s s1 \<Longrightarrow> evolves s (s1\<lparr>microtasks := t\<rparr>)"
  by (rule ev_step [OF _ p_microtasks])

lemma ev_counters: "evolves s s1 \<Longrightarrow> evolves s (s1\<lparr>counters := (counters s1)(c := n)\<rparr>)"
  by (rule ev_step [OF _ p_counters])

lemma ev_catch_latched: "evolves s s1 \<Longrightarrow> evolves s (catch_latched l q e s1)"
  unfolding catch_latched_def by (simp add: ev_reject ev_latch)

lemmas ev_rules = ev_refl ev_fulfil ev_reject ev_latch ev_new_latch ev_new_promise
  ev_new_counter ev_new_array ev_then ev_trace ev_timers ev_microtasks ev_catch_latched

lemma evolves_store_item:
  "evolves s
     (snd (let s1 = s\<lparr>arrays := (arrays s)(a := xs)\<rparr>;
               s2 = s1\<lparr>counters := (counters s1)(c := counters s1 c - 1)\<rparr>
           in if counters s2 c = 0 then (r, settleFulfilled P w s2) else (r, s2)))"
proof -
  let ?s1 = "s\<lparr>arrays := (arrays s)(a := xs)\<rparr>"
  let ?s2 = "?s1\<lparr>counters := (counters ?s1)(c := counters ?s1 c - 1)\<rparr>"
  have e2: "evolves s ?s2"
    by (rule ev_step [OF evolves_prim [OF p_arrays] p_counters])
  have e3: "evolves s (settleFulfilled P w ?s2)"
    by (rule ev_step [OF e2 p_fulfil])
  show ?thesis
    unfolding Let_def using e2 e3 by (cases "counters ?s2 c = 0") simp_all
qed

lemma evolves_rnp_flat:
  assumes "\<And>acts. w \<noteq> VThenable acts"
  shows "evolves s (snd (resolveNextPromise q w s))"
  using assms by (cases w) (auto simp: resolveNextPromise.simps ev_rules)

lemma evolves_mutual:
  "evolves s (snd (call_fn f v s))"
  "evolves s (snd (resolveNextPromise q w s))"
  "evolves s (snd (run_script acts f' g' s))"
proof (induction f v s and q w s and acts f' g' s rule: call_fn_resolveNextPromise_run_script.induct)
  case (3 l q v s)
  then show ?case
    by (auto split: prod.splits sum.splits intro: ev_refl evolves_then_prim [OF p_latch])
next
  case (7 callback v s)
  then show ?case by (simp add: ev_rules split: sum.splits)
next
  case (8 callback v s)
  then show ?case by (simp add: ev_rules split: sum.splits)
next
  case (9 c a i P v s)
  show ?case
    unfolding call_fn.simps by (rule evolves_store_item)
next
  case (10 c a i P v s)
  show ?case
    unfolding call_fn.simps by (rule evolves_store_item)
next
  case (11 c a i P v s)
  show ?case
    unfolding call_fn.simps by (rule evolves_store_item)
next
  case (13 promise "value" s)
  show ?case
  proof (cases "\<exists>acts. value = VThenable acts")
    case False
    then show ?thesis by (simp add: evolves_rnp_flat)
  next
    case True
    then obtain acts where VThenable: "value = VThenable acts" by blast
    let ?r = "run_script acts (OnResolved (next_latch s) promise)
                (OnRejected (next_latch s) promise) (snd (new_latch s))"
    have "evolves (snd (new_latch s)) (snd ?r)"
      using "13.IH" [OF _ _ VThenable] VThenable by simp
    then have "evolves s (snd ?r)"
      by (rule evolves_then_prim [OF p_new_latch])
    then show ?thesis
      by (cases ?r) (auto simp: VThenable resolveNextPromise.simps ev_catch_latched split: sum.splits)
  qed
next
  case (15 v rest f g s)
  then show ?case by (auto split: prod.splits sum.splits intro: evolves_trans)
next
  case (16 v rest f g s)
  then show ?case by (auto split: prod.splits sum.splits intro: evolves_trans)
next
  case (18 acts rest f g s)
  then show ?case by (auto intro: evolves_then_prim [OF p_timers])
qed (simp_all add: ev_rules)

lemma evolves_call_fn: "evolves s s1 \<Longrightarrow> evolves s (snd (call_fn f v s1))"
  by (rule evolves_trans [OF evolves_mutual(1)])

lemma evolves_rnp: "evolves s s1 \<Longrightarrow> evolves s (snd (resolveNextPromise q w s1))"
  by (rule evolves_trans [OF evolves_mutual(2)])

lemma evolves_run_script: "evolves s s1 \<Longrightarrow> evolves s (snd (run_script acts f g s1))"
  by (rule evolves_trans [OF evolves_mutual(3)])

lemma evolves_run_task: "evolves s s1 \<Longrightarrow> evolves s (run_task t s1)"
proof (cases t)
  case (FulfilledTask p h q)
  assume e: "evolves s s1"
  obtain r s2 where c: "call_fn h (result (heap s1 p)) s1 = (r, s2)" by force
  have e2: "evolves s s2" using evolves_call_fn [OF e, of h "result (heap s1 p)"] c by simp
  show ?thesis
  proof (cases r)
    case (Inl error)
    then show ?thesis using c e2 FulfilledTask by (simp add: ev_reject)
  next
    case (Inr w)
    obtain r3 s3 where d: "resolveNextPromise q w s2 = (r3, s3)" by force
    have e3: "evolves s s3" using evolves_rnp [OF e2, of q w] d by simp
    show ?thesis using c d e3 Inr FulfilledTask by (cases r3) (simp_all add: ev_reject)
  qed
next
  case (RejectedTask p h q)
  assume e: "evolves s s1"
  obtain r s2 where c: "call_fn h (reason (heap s1 p)) s1 = (r, s2)" by force
  have e2: "evolves s s2" using evolves_call_fn [OF e, of h "reason (heap s1 p)"] c by simp
  show ?thesis
  proof (cases r)
    case (Inl error)
    then show ?thesis using c e2 RejectedTask by (simp add: ev_reject)
  next
    case (Inr w)
    obtain r3 s3 where d: "resolveNextPromise q w s2 = (r3, s3)" by force
    have e3: "evolves s s3" using evolves_rnp [OF e2, of q w] d by simp
    show ?thesis using c d e3 Inr RejectedTask by (cases r3) (simp_all add: ev_reject)
  qed
qed

lemma evolves_run_timer: "evolves s s1 \<Longrightarrow> evolves s (run_timer tm s1)"
proof -
  assume e: "evolves s s1"
  obtain acts f g where tm: "tm = (acts, f, g)" by (cases tm) auto
  obtain r s2 where c: "run_script acts f g s1 = (r, s2)" by force
  have "evolves s s2" using evolves_run_script [OF e, of acts f g] c by simp
  then show ?thesis using c tm by (cases r) (simp_all add: ev_trace)
qed

lemma evolves_step: "evolves s s1 \<Longrightarrow> evolves s (step s1)"
  by (cases "microtasks s1"; cases "timers s1")
     (simp_all add: step_def evolves_run_task evolves_run_timer ev_microtasks ev_timers
        del: run_timer.simps run_task.simps)

lemma evolves_run: "evolves s s1 \<Longrightarrow> evolves s (run n s1)"
  by (induction n arbitrary: s1) (auto intro: evolves_step)

lemma evolves_construct: "evolves s s1 \<Longrightarrow> evolves s (snd (construct e s1))"
proof (cases e)
  case NotCallable
  assume "evolves s s1"
  then show ?thesis using NotCallable by (simp add: construct_def)
next
  case (Executor acts)
  assume e: "evolves s s1"
  let ?p = "next_promise s1"
  obtain r s2 where c: "run_script acts (FResolve ?p) (FReject ?p) (snd (new_promise s1)) = (r, s2)"
    by force
  have "evolves s s2"
    using evolves_run_script [OF ev_new_promise [OF e], of acts "FResolve ?p" "FReject ?p"] c by simp
  then show ?thesis using c Executor
    by (cases r) (simp_all add: construct_def new_promise_def ev_reject)
qed

lemma evolves_resolve_static: "evolves s s1 \<Longrightarrow> evolves s (snd (resolve_static v s1))"
proof (cases "\<exists>acts. v = VThenable acts")
  case False
  assume e: "evolves s s1"
  have n: "evolves s (snd (new_promise s1))" by (rule ev_new_promise [OF e])
  show ?thesis using False e n
    by (cases v) (auto simp: resolve_static_def ev_rules case_prod_beta)
next
  case True
  assume e: "evolves s s1"
  from True obtain acts where v: "v = VThenable acts" by blast
  let ?p = "next_promise s1"
  obtain r s2 where c: "run_script acts (FResolve ?p) (FReject ?p) (snd (new_promise s1)) = (r, s2)"
    by force
  have "evolves s s2"
    using evolves_run_script [OF ev_new_promise [OF e], of acts "FResolve ?p" "FReject ?p"] c by simp
  then show ?thesis using c v
    by (cases r) (simp_all add: resolve_static_def new_promise_def ev_reject)
qed

lemma evolves_reject_static: "evolves s s1 \<Longrightarrow> evolves s (snd (reject_static v s1))"
proof -
  assume e: "evolves s s1"
  have "snd (reject_static v s1) = settleRejected (next_promise s1) v (snd (new_promise s1))"
    by (simp add: reject_static_def new_promise_def)
  then show ?thesis by (simp add: ev_reject ev_new_promise e)
qed

lemma evolves_all_loop: "evolves s s1 \<Longrightarrow> evolves s (all_loop items c a P s1)"
proof (induction items arbitrary: s1)
  case Nil
  then show ?case by simp
next
  case (Cons item rest)
  let ?s1 = "s1\<lparr>counters := (counters s1)(c := counters s1 c + 1)\<rparr>"
  have "evolves s ?s1" by (rule ev_counters [OF Cons.prems])
  then have "evolves s (snd (resolve_static item ?s1))" by (rule evolves_resolve_static)
  then have "evolves s (snd (then_op (fst (resolve_static item ?s1))
      (Some (AllItem c a (nat (counters s1 c)) P)) (Some (FReject P)) (snd (resolve_static item ?s1))))"
    by (rule ev_then)
  from Cons.IH [OF this] show ?case by (simp add: Let_def case_prod_beta)
qed

lemma evolves_allSettled_loop: "evolves s s1 \<Longrightarrow> evolves s (allSettled_loop items c a P s1)"
proof (induction items arbitrary: s1)
  case Nil
  then show ?case by simp
next
  case (Cons item rest)
  let ?s1 = "s1\<lparr>counters := (counters s1)(c := counters s1 c + 1)\<rparr>"
  have "evolves s ?s1" by (rule ev_counters [OF Cons.prems])
  then have "evolves s (snd (resolve_static item ?s1))" by (rule evolves_resolve_static)
  then have "evolves s (snd (then_op (fst (resolve_static item ?s1))
      (Some (SettledOk c a (nat (counters s1 c)) P)) (Some (SettledErr c a (nat (counters s1 c)) P))
      (snd (resolve_static item ?s1))))"
    by (rule ev_then)
  from Cons.IH [OF this] show ?case by (simp add: Let_def case_prod_beta)
qed

lemma evolves_all_op: "evolves s s1 \<Longrightarrow> evolves s (snd (all_op items s1))"
proof -
  assume e: "evolves s s1"
  let ?s3 = "snd (new_array (snd (new_counter (snd (new_promise s1)))))"
  have "evolves s ?s3" by (intro ev_new_array ev_new_counter ev_new_promise e)
  then have "evolves s (all_loop items (next_counter s1) (next_array s1) (next_promise s1) ?s3)"
    by (rule evolves_all_loop)
  then show ?thesis
    by (simp add: all_op_def new_promise_def new_counter_def new_array_def Let_def
          ev_fulfil ev_new_array [unfolded new_array_def, simplified])
qed

lemma evolves_allSettled_op: "evolves s s1 \<Longrightarrow> evolves s (snd (allSettled_op items s1))"
proof -
  assume e: "evolves s s1"
  let ?s3 = "snd (new_array (snd (new_counter (snd (new_promise s1)))))"
  have "evolves s ?s3" by (intro ev_new_array ev_new_counter ev_new_promise e)
  then have "evolves s (allSettled_loop items (next_counter s1) (next_array s1) (next_promise s1) ?s3)"
    by (rule evolves_allSettled_loop)
  then show ?thesis
    by (simp add: allSettled_op_def new_promise_def new_counter_def new_array_def Let_def
          ev_fulfil ev_new_array [unfolded new_array_def, simplified])
qed

lemma evolves_apply_op: "evolves s s1 \<Longrightarrow> evolves s (apply_op x s1)"
  by (cases x)
     (simp_all add: evolves_construct ev_then catch_op_def finally_op_def evolves_resolve_static
        evolves_reject_static evolves_all_op evolves_allSettled_op evolves_step)

lemma evolves_exec: "evolves s s1 \<Longrightarrow> evolves s (exec xs s1)"
  by (induction xs arbitrary: s1) (auto intro: evolves_apply_op)

section \<open>Settled containers are immutable\<close>

lemma settleFulfilled_settled [simp]:
  "state (heap s p) \<noteq> Pending \<Longrightarrow> settleFulfilled p v s = s"
  by (simp add: settleFulfilled_def)

lemma settleRejected_settled [simp]:
  "state (heap s p) \<noteq> Pending \<Longrightarrow> settleRejected p v s = s"
  by (simp add: settleRejected_def)

lemma settleFulfilled_pending:
  "state (heap s p) = Pending \<Longrightarrow>
   settleFulfilled p v s =
     s\<lparr>heap := (heap s)(p := (heap s p)
          \<lparr>result := v, state := Fulfilled, onFulfilledCallbacks := []\<rparr>),
       microtasks := microtasks s @ onFulfilledCallbacks (heap s p)\<rparr>"
  by (simp add: settleFulfilled_def drainFulfilled_closed)

lemma settleRejected_pending:
  "state (heap s p) = Pending \<Longrightarrow>
   settleRejected p v s =
     s\<lparr>heap := (heap s)(p := (heap s p)
          \<lparr>reason := v, state := Rejected, onRejectedCallbacks := []\<rparr>),
       microtasks := microtasks s @ onRejectedCallbacks (heap s p)\<rparr>"
  by (simp add: settleRejected_def drainRejected_closed)

lemma frozen_refl: "frozen s s"
  by (simp add: frozen_def)

lemma frozen_trans: "frozen s s1 \<Longrightarrow> frozen s1 s2 \<Longrightarrow> frozen s s2"
  unfolding frozen_def by (metis le_trans less_le_trans)

lemma frozen_settleFulfilled: "frozen s (settleFulfilled p v s)"
  by (cases "state (heap s p) = Pending")
     (auto simp: frozen_def settleFulfilled_pending)

lemma frozen_settleRejected: "frozen s (settleRejected p v s)"
  by (cases "state (heap s p) = Pending")
     (auto simp: frozen_def settleRejected_pending)

lemma frozen_then_op: "frozen s (snd (then_op p f g s))"
  by (auto simp: frozen_def then_op_def new_promise_def createMicroTask_def Let_def
        fresh_promise_def split: pstate.splits)

lemma frozen_prim: "prim s s1 \<Longrightarrow> frozen s s1"
proof (induction rule: prim.induct)
  case (p_fulfil s p v)
  show ?case by (rule frozen_settleFulfilled)
next
  case (p_reject s p v)
  show ?case by (rule frozen_settleRejected)
next
  case (p_then s p f g)
  show ?case by (rule frozen_then_op)
qed (simp_all add: frozen_def set_latch_def new_latch_def new_promise_def new_counter_def
       new_array_def)

lemma frozen_evolves: "evolves s s1 \<Longrightarrow> frozen s s1"
  by (induction rule: evolves.induct) (auto intro: frozen_refl frozen_trans frozen_prim)

text \<open>
  Claim C1. The state of a container leaves \<open>Pending\<close> at most once, to
  \<open>Fulfilled\<close> or to \<open>Rejected\<close>. A settlement function called on a settled
  container returns the world unchanged; called on a pending one it sets the state and
  the result (or reason). Once a container is settled, no call of any function value,
  no number of turns of the host and no program changes its record: state, result and
  reason stay what they are.
\<close>

theorem settle_at_most_once:
  "(state (heap s p) \<noteq> Pending \<longrightarrow>
      settleFulfilled p v s = s \<and> settleRejected p v s = s) \<and>
   (state (heap s p) = Pending \<longrightarrow>
      state (heap (settleFulfilled p v s) p) = Fulfilled \<and>
      result (heap (settleFulfilled p v s) p) = v \<and>
      state (heap (settleRejected p v s) p) = Rejected \<and>
      reason (heap (settleRejected p v s) p) = v) \<and>
   (p < next_promise s \<and> state (heap s p) \<noteq> Pending \<longrightarrow>
      heap (snd (call_fn f w s)) p = heap s p \<and>
      heap (run n s) p = heap s p \<and>
      heap (exec xs s) p = heap s p)"
proof (intro conjI impI)
  assume "state (heap s p) \<noteq> Pending"
  then show "settleFulfilled p v s = s" "settleRejected p v s = s" by simp_all
next
  assume pend: "state (heap s p) = Pending"
  show "state (heap (settleFulfilled p v s) p) = Fulfilled"
    "result (heap (settleFulfilled p v s) p) = v"
    by (simp_all add: settleFulfilled_pending [OF pend])
  show "state (heap (settleRejected p v s) p) = Rejected"
    "reason (heap (settleRejected p v s) p) = v"
    by (simp_all add: settleRejected_pending [OF pend])
next
  assume a: "p < next_promise s \<and> state (heap s p) \<noteq> Pending"
  have "frozen s (snd (call_fn f w s))"
    by (rule frozen_evolves [OF evolves_call_fn [OF ev_refl]])
  with a show "heap (snd (call_fn f w s)) p = heap s p" by (simp add: frozen_def)
  have "frozen s (run n s)"
    by (rule frozen_evolves [OF evolves_run [OF ev_refl]])
  with a show "heap (run n s) p = heap s p" by (simp add: frozen_def)
  have "frozen s (exec xs s)"
    by (rule frozen_evolves [OF evolves_exec [OF ev_refl]])
  with a show "heap (exec xs s) p = heap s p" by (simp add: frozen_def)
qed

lemma settled_thrice_obs:
  "next_promise settled_thrice = 1 \<and> state (heap settled_thrice 0) = Fulfilled \<and>
   result (heap settled_thrice 0) = VNum 1 \<and> reason (heap settled_thrice 0) = VUndef"
  by (simp add: settled_thrice_def construct_def new_promise_def empty_world_def
        fresh_promise_def settleFulfilled_def settleRejected_def drainFulfilled_closed)

theorem settle_at_most_once_witness:
  "(0::nat) < next_promise settled_thrice \<and> state (heap settled_thrice 0) \<noteq> Pending \<and>
   settleFulfilled 0 (VNum 2) settled_thrice = settled_thrice \<and>
   settleRejected 0 (VStr ''e'') settled_thrice = settled_thrice \<and>
   state (heap (run 3 settled_thrice) 0) = Fulfilled \<and>
   result (heap (run 3 settled_thrice) 0) = VNum 1 \<and>
   state (heap (settleFulfilled 0 (VNum 1) empty_world) 0) = Fulfilled"
  using settle_at_most_once [of settled_thrice 0 "VNum 2" Identity VUndef 3 "[]"]
    settle_at_most_once [of settled_thrice 0 "VStr ''e''" Identity VUndef 3 "[]"]
    settle_at_most_once [of empty_world 0 "VNum 1" Identity VUndef 3 "[]"]
    settled_thrice_obs
  by (simp add: empty_world_def fresh_promise_def)

section \<open>The reaction queues\<close>

lemma drained_prim: "prim s s1 \<Longrightarrow> drained s \<Longrightarrow> drained s1"
proof (induction rule: prim.induct)
  case (p_fulfil s p v)
  then show ?case
    by (cases "state (heap s p) = Pending") (auto simp: drained_def settleFulfilled_pending)
next
  case (p_reject s p v)
  then show ?case
    by (cases "state (heap s p) = Pending") (auto simp: drained_def settleRejected_pending)
next
  case (p_then s p f g)
  then show ?case
    by (auto simp: drained_def then_op_def new_promise_def createMicroTask_def Let_def
          fresh_promise_def split: pstate.splits)
next
  case (p_new_promise s)
  then show ?case by (auto simp: drained_def new_promise_def fresh_promise_def)
qed (simp_all add: drained_def set_latch_def new_latch_def new_counter_def new_array_def)

lemma drained_evolves: "evolves s s1 \<Longrightarrow> drained s \<Longrightarrow> drained s1"
  by (induction rule: evolves.induct) (auto intro: drained_prim)

lemma drained_empty_world: "drained empty_world"
  by (simp add: drained_def empty_world_def fresh_promise_def)

lemma late_fulfilment_obs:
  "next_promise (exec late_fulfilment empty_world) = 2 \<and>
   state (heap (exec late_fulfilment empty_world) 0) = Fulfilled \<and>
   onFulfilledCallbacks (heap (exec late_fulfilment empty_world) 0) = [] \<and>
   onRejectedCallbacks (heap (exec late_fulfilment empty_world) 0) = [RejectedTask 0 Thrower 1] \<and>
   microtasks (exec late_fulfilment empty_world) = [FulfilledTask 0 Identity 1]"
  by (simp add: late_fulfilment_def construct_def then_op_def step_def new_promise_def
        empty_world_def fresh_promise_def settleFulfilled_pending)

lemma pending_with_reaction_obs:
  "next_promise (exec pending_with_reaction empty_world) = 2 \<and>
   state (heap (exec pending_with_reaction empty_world) 0) = Pending \<and>
   onFulfilledCallbacks (heap (exec pending_with_reaction empty_world) 0) =
     [FulfilledTask 0 Identity 1] \<and>
   onRejectedCallbacks (heap (exec pending_with_reaction empty_world) 0) =
     [RejectedTask 0 Thrower 1] \<and>
   microtasks (exec pending_with_reaction empty_world) = []"
  by (simp add: pending_with_reaction_def construct_def then_op_def new_promise_def
        empty_world_def fresh_promise_def)

theorem rejections_queue_left_counterexample:
  "state (heap (exec late_fulfilment empty_world) 0) \<noteq> Pending \<and>
   onRejectedCallbacks (heap (exec late_fulfilment empty_world) 0) \<noteq> []"
  using late_fulfilment_obs by simp

text \<open>
  Claim C9, amended. A call of \<open>then\<close> appends to the two queues of a container
  only while it is pending. Settlement of a pending container drains the queue of its
  own kind in FIFO order, each entry removed before it is invoked, and each entry is
  scheduled exactly once; the queue of the other kind is left as it is. In every world
  that a program reaches, the drained queue of a settled container is empty, and
  the whole record of a settled container, both queues included, never changes again.
\<close>

theorem reaction_queues:
  "(state (heap s p) \<noteq> Pending \<and> p < next_promise s \<longrightarrow>
      onFulfilledCallbacks (heap (snd (then_op p f g s)) p) = onFulfilledCallbacks (heap s p) \<and>
      onRejectedCallbacks (heap (snd (then_op p f g s)) p) = onRejectedCallbacks (heap s p)) \<and>
   (onFulfilledCallbacks (heap s p) = t # ts \<longrightarrow>
      drainFulfilled p s =
        drainFulfilled p (createMicroTask t
          (s\<lparr>heap := (heap s)(p := (heap s p)\<lparr>onFulfilledCallbacks := ts\<rparr>)\<rparr>))) \<and>
   (onRejectedCallbacks (heap s p) = t # ts \<longrightarrow>
      drainRejected p s =
        drainRejected p (createMicroTask t
          (s\<lparr>heap := (heap s)(p := (heap s p)\<lparr>onRejectedCallbacks := ts\<rparr>)\<rparr>))) \<and>
   (state (heap s p) = Pending \<longrightarrow>
      microtasks (settleFulfilled p v s) = microtasks s @ onFulfilledCallbacks (heap s p) \<and>
      onFulfilledCallbacks (heap (settleFulfilled p v s) p) = [] \<and>
      onRejectedCallbacks (heap (settleFulfilled p v s) p) = onRejectedCallbacks (heap s p) \<and>
      microtasks (settleRejected p v s) = microtasks s @ onRejectedCallbacks (heap s p) \<and>
      onRejectedCallbacks (heap (settleRejected p v s) p) = [] \<and>
      onFulfilledCallbacks (heap (settleRejected p v s) p) = onFulfilledCallbacks (heap s p)) \<and>
   drained (exec xs empty_world) \<and>
   (state (heap s p) \<noteq> Pending \<and> p < next_promise s \<longrightarrow>
      heap (run n s) p = heap s p \<and> heap (exec xs s) p = heap s p)"
proof (intro conjI impI)
  assume a: "state (heap s p) \<noteq> Pending \<and> p < next_promise s"
  have "frozen s (snd (then_op p f g s))" by (rule frozen_then_op)
  with a have "heap (snd (then_op p f g s)) p = heap s p" by (simp add: frozen_def)
  then show "onFulfilledCallbacks (heap (snd (then_op p f g s)) p) = onFulfilledCallbacks (heap s p)"
    "onRejectedCallbacks (heap (snd (then_op p f g s)) p) = onRejectedCallbacks (heap s p)"
    by simp_all
  have "frozen s (run n s)" by (rule frozen_evolves [OF evolves_run [OF ev_refl]])
  with a show "heap (run n s) p = heap s p" by (simp add: frozen_def)
  have "frozen s (exec xs s)" by (rule frozen_evolves [OF evolves_exec [OF ev_refl]])
  with a show "heap (exec xs s) p = heap s p" by (simp add: frozen_def)
next
  assume "onFulfilledCallbacks (heap s p) = t # ts"
  then show "drainFulfilled p s =
        drainFulfilled p (createMicroTask t
          (s\<lparr>heap := (heap s)(p := (heap s p)\<lparr>onFulfilledCallbacks := ts\<rparr>)\<rparr>))"
    by (subst drainFulfilled.simps) simp
next
  assume "onRejectedCallbacks (heap s p) = t # ts"
  then show "drainRejected p s =
        drainRejected p (createMicroTask t
          (s\<lparr>heap := (heap s)(p := (heap s p)\<lparr>onRejectedCallbacks := ts\<rparr>)\<rparr>))"
    by (subst drainRejected.simps) simp
next
  assume pend: "state (heap s p) = Pending"
  show "microtasks (settleFulfilled p v s) = microtasks s @ onFulfilledCallbacks (heap s p)"
    "onFulfilledCallbacks (heap (settleFulfilled p v s) p) = []"
    "onRejectedCallbacks (heap (settleFulfilled p v s) p) = onRejectedCallbacks (heap s p)"
    by (simp_all add: settleFulfilled_pending [OF pend])
  show "microtasks (settleRejected p v s) = microtasks s @ onRejectedCallbacks (heap s p)"
    "onRejectedCallbacks (heap (settleRejected p v s) p) = []"
    "onFulfilledCallbacks (heap (settleRejected p v s) p) = onFulfilledCallbacks (heap s p)"
    by (simp_all add: settleRejected_pending [OF pend])
next
  show "drained (exec xs empty_world)"
    by (rule drained_evolves [OF evolves_exec [OF ev_refl] drained_empty_world])
qed

theorem reaction_queues_witness:
  "state (heap (exec late_fulfilment empty_world) 0) = Fulfilled \<and>
   (0::nat) < next_promise (exec late_fulfilment empty_world) \<and>
   onFulfilledCallbacks (heap (exec late_fulfilment empty_world) 0) = [] \<and>
   heap (run 2 (exec late_fulfilment empty_world)) 0 = heap (exec late_fulfilment empty_world) 0 \<and>
   onRejectedCallbacks (heap (snd (then_op 0 None None (exec late_fulfilment empty_world))) 0) =
     [RejectedTask 0 Thrower 1] \<and>
   state (heap (exec pending_with_reaction empty_world) 0) = Pending \<and>
   onFulfilledCallbacks (heap (exec pending_with_reaction empty_world) 0) =
     FulfilledTask 0 Identity 1 # [] \<and>
   onRejectedCallbacks (heap (exec pending_with_reaction empty_world) 0) =
     RejectedTask 0 Thrower 1 # [] \<and>
   microtasks (settleFulfilled 0 VUndef (exec pending_with_reaction empty_world)) =
     [FulfilledTask 0 Identity 1] \<and>
   onRejectedCallbacks (heap (settleFulfilled 0 VUndef (exec pending_with_reaction empty_world)) 0) =
     [RejectedTask 0 Thrower 1] \<and>
   microtasks (settleRejected 0 VUndef (exec pending_with_reaction empty_world)) =
     [RejectedTask 0 Thrower 1]"
  using reaction_queues [of "exec late_fulfilment empty_world" 0 None None
          "FulfilledTask 0 Identity 0" "[]" VUndef late_fulfilment 2]
    reaction_queues [of "exec pending_with_reaction empty_world" 0 None None
          "FulfilledTask 0 Identity 1" "[]" VUndef late_fulfilment 2]
    reaction_queues [of "exec pending_with_reaction empty_world" 0 None None
          "RejectedTask 0 Thrower 1" "[]" VUndef late_fulfilment 2]
    late_fulfilment_obs pending_with_reaction_obs
  by (simp add: drained_def)

section \<open>The single-call latch\<close>

lemma latched_refl: "latched s s"
  by (simp add: latched_def)

lemma latched_trans: "latched s s1 \<Longrightarrow> latched s1 s2 \<Longrightarrow> latched s s2"
  unfolding latched_def by (metis le_trans less_le_trans)

lemma latched_prim: "prim s s1 \<Longrightarrow> latched s s1"
proof (induction rule: prim.induct)
  case (p_fulfil s p v)
  show ?case
    by (cases "state (heap s p) = Pending") (simp_all add: latched_def settleFulfilled_pending)
next
  case (p_reject s p v)
  show ?case
    by (cases "state (heap s p) = Pending") (simp_all add: latched_def settleRejected_pending)
next
  case (p_then s p f g)
  show ?case
    by (simp add: latched_def then_op_def new_promise_def createMicroTask_def Let_def
          split: pstate.splits)
qed (simp_all add: latched_def set_latch_def new_latch_def new_promise_def new_counter_def
       new_array_def)

lemma latched_evolves: "evolves s s1 \<Longrightarrow> latched s s1"
  by (induction rule: evolves.induct) (auto intro: latched_refl latched_trans latched_prim)

lemma latch_stays:
  "evolves s s1 \<Longrightarrow> l < next_latch s \<Longrightarrow> latches s l \<Longrightarrow> latches s1 l"
  using latched_evolves [of s s1] by (simp add: latched_def)

lemma OnResolved_fires:
  assumes "l < next_latch s"
  shows "latches (snd (call_fn (OnResolved l q) v s)) l"
proof (cases "latches s l")
  case True
  then show ?thesis by simp
next
  case False
  have "latches (snd (resolveNextPromise q v (set_latch l s))) l"
    by (rule latch_stays [OF evolves_mutual(2)]) (use assms in \<open>simp_all add: set_latch_def\<close>)
  then show ?thesis using False
    by (cases "resolveNextPromise q v (set_latch l s)") (auto split: sum.splits)
qed

lemma OnRejected_fires:
  assumes "l < next_latch s"
  shows "latches (snd (call_fn (OnRejected l q) v s)) l"
proof (cases "latches s l")
  case True
  then show ?thesis by simp
next
  case False
  have "latches (settleRejected q v (set_latch l s)) l"
    by (rule latch_stays [OF ev_reject [OF ev_refl]]) (use assms in \<open>simp_all add: set_latch_def\<close>)
  then show ?thesis using False by simp
qed

lemma run_script_append_Throw:
  "run_script (pre @ Throw e # rest) f g s =
     (case run_script pre f g s of
        (Inl x, s1) \<Rightarrow> (Inl x, s1)
      | (Inr u, s1) \<Rightarrow> (Inl e, s1))"
proof (induction pre arbitrary: s)
  case Nil
  show ?case by simp
next
  case (Cons a pre)
  show ?case by (cases a) (simp_all add: Cons.IH split: prod.splits sum.splits)
qed

lemma unfired_heap:
  "run_script pre (OnResolved l q) (OnRejected l q) s1 = (r, s2) \<Longrightarrow>
   l < next_latch s1 \<Longrightarrow> \<not> latches s2 l \<Longrightarrow> heap s2 = heap s1"
proof (induction pre arbitrary: s1)
  case Nil
  then show ?case by simp
next
  case (Cons a pre)
  show ?case
  proof (cases a)
    case (Resolve v)
    let ?c = "call_fn (OnResolved l q) v s1"
    have f: "latches (snd ?c) l" by (rule OnResolved_fires [OF Cons.prems(2)])
    have b: "next_latch s1 \<le> next_latch (snd ?c)"
      using latched_evolves [OF evolves_mutual(1), of s1 "OnResolved l q" v] by (simp add: latched_def)
    have "evolves (snd ?c) s2"
      using Cons.prems(1) Resolve evolves_mutual(3) [of "snd ?c" pre "OnResolved l q" "OnRejected l q"]
      by (cases ?c) (auto split: sum.splits intro: ev_refl)
    from latch_stays [OF this _ f] b Cons.prems(2,3) show ?thesis by simp
  next
    case (Reject v)
    let ?c = "call_fn (OnRejected l q) v s1"
    have f: "latches (snd ?c) l" by (rule OnRejected_fires [OF Cons.prems(2)])
    have b: "next_latch s1 \<le> next_latch (snd ?c)"
      using latched_evolves [OF evolves_mutual(1), of s1 "OnRejected l q" v] by (simp add: latched_def)
    have "evolves (snd ?c) s2"
      using Cons.prems(1) Reject evolves_mutual(3) [of "snd ?c" pre "OnResolved l q" "OnRejected l q"]
      by (cases ?c) (auto split: sum.splits intro: ev_refl)
    from latch_stays [OF this _ f] b Cons.prems(2,3) show ?thesis by simp
  next
    case (Throw e)
    with Cons.prems show ?thesis by simp
  next
    case (Later acts)
    with Cons.prems Cons.IH [of "s1\<lparr>timers := timers s1 @ [(acts, OnResolved l q, OnRejected l q)]\<rparr>"]
    show ?thesis by simp
  qed
qed


lemma one_pending_obs:
  "next_promise one_pending = 1 \<and> next_latch one_pending = 0 \<and>
   heap one_pending 0 = fresh_promise \<and> microtasks one_pending = [] \<and>
   timers one_pending = [] \<and> latches one_pending = (\<lambda>_. False)"
  by (simp add: one_pending_def construct_def new_promise_def empty_world_def)

text \<open>
  Claim C4. The two continuations that the resolution procedure hands to a thenable
  share one latch. A call of either of them when the latch has fired returns without
  any effect; a call of either of them fires the latch, and a fired latch stays fired
  through every later call, turn and program, so that only the first call takes
  effect: of \<open>onRejected\<close> it rejects the adopting container when it is pending, of
  \<open>onResolved\<close> it enters the resolution procedure again. When the \<open>then\<close>
  member raises after a part \<open>pre\<close> of its body has run: if the latch has fired by
  then, the error is swallowed and the world is the one that \<open>pre\<close> left; if it
  has not, the adopting container is rejected with the error (it is rejected with
  that reason whenever it was pending on entry).
\<close>

theorem single_call_latch:
  "(latches s l \<longrightarrow>
      call_fn (OnResolved l q) v s = (Inr VUndef, s) \<and>
      call_fn (OnRejected l q) v s = (Inr VUndef, s)) \<and>
   (l < next_latch s \<longrightarrow>
      latches (snd (call_fn (OnResolved l q) v s)) l \<and>
      latches (snd (call_fn (OnRejected l q) v s)) l) \<and>
   (l < next_latch s \<and> latches s l \<longrightarrow>
      latches (snd (call_fn f w s)) l \<and> latches (run n s) l \<and> latches (exec xs s) l) \<and>
   (\<not> latches s l \<and> state (heap s q) = Pending \<longrightarrow>
      state (heap (snd (call_fn (OnRejected l q) v s)) q) = Rejected \<and>
      reason (heap (snd (call_fn (OnRejected l q) v s)) q) = v) \<and>
   (\<not> latches s l \<longrightarrow>
      snd (call_fn (OnResolved l q) v s) = snd (resolveNextPromise q v (set_latch l s))) \<and>
   (run_script pre (OnResolved (next_latch s) q) (OnRejected (next_latch s) q)
        (snd (new_latch s)) = (Inr (), s2) \<longrightarrow>
      (latches s2 (next_latch s) \<longrightarrow>
         resolveNextPromise q (VThenable (pre @ Throw e # rest)) s = (Inr (), s2)) \<and>
      (\<not> latches s2 (next_latch s) \<longrightarrow>
         resolveNextPromise q (VThenable (pre @ Throw e # rest)) s =
           (Inr (), settleRejected q e (set_latch (next_latch s) s2)) \<and>
         (state (heap s q) = Pending \<longrightarrow>
            state (heap (snd (resolveNextPromise q (VThenable (pre @ Throw e # rest)) s)) q) =
              Rejected \<and>
            reason (heap (snd (resolveNextPromise q (VThenable (pre @ Throw e # rest)) s)) q) =
              e)))"
proof (intro conjI impI)
  assume "latches s l"
  then show "call_fn (OnResolved l q) v s = (Inr VUndef, s)"
    "call_fn (OnRejected l q) v s = (Inr VUndef, s)" by simp_all
next
  assume "l < next_latch s"
  then show "latches (snd (call_fn (OnResolved l q) v s)) l"
    "latches (snd (call_fn (OnRejected l q) v s)) l"
    by (simp_all only: OnResolved_fires OnRejected_fires)
next
  assume a: "l < next_latch s \<and> latches s l"
  show "latches (snd (call_fn f w s)) l"
    by (rule latch_stays [OF evolves_mutual(1)]) (use a in simp_all)
  show "latches (run n s) l"
    by (rule latch_stays [OF evolves_run [OF ev_refl]]) (use a in simp_all)
  show "latches (exec xs s) l"
    by (rule latch_stays [OF evolves_exec [OF ev_refl]]) (use a in simp_all)
next
  assume a: "\<not> latches s l \<and> state (heap s q) = Pending"
  then have p: "state (heap (set_latch l s) q) = Pending" by (simp add: set_latch_def)
  show "state (heap (snd (call_fn (OnRejected l q) v s)) q) = Rejected"
    "reason (heap (snd (call_fn (OnRejected l q) v s)) q) = v"
    using a by (simp_all add: settleRejected_pending [OF p])
next
  assume "\<not> latches s l"
  then show "snd (call_fn (OnResolved l q) v s) = snd (resolveNextPromise q v (set_latch l s))"
    by (cases "resolveNextPromise q v (set_latch l s)") (auto split: sum.splits)
next
  assume r: "run_script pre (OnResolved (next_latch s) q) (OnRejected (next_latch s) q)
        (snd (new_latch s)) = (Inr (), s2)"
  assume f: "latches s2 (next_latch s)"
  show "resolveNextPromise q (VThenable (pre @ Throw e # rest)) s = (Inr (), s2)"
    using r f by (simp add: resolveNextPromise.simps run_script_append_Throw catch_latched_def)
next
  assume r: "run_script pre (OnResolved (next_latch s) q) (OnRejected (next_latch s) q)
        (snd (new_latch s)) = (Inr (), s2)"
  assume f: "\<not> latches s2 (next_latch s)"
  show eq: "resolveNextPromise q (VThenable (pre @ Throw e # rest)) s =
           (Inr (), settleRejected q e (set_latch (next_latch s) s2))"
    using r f by (simp add: resolveNextPromise.simps run_script_append_Throw catch_latched_def)
  assume pend: "state (heap s q) = Pending"
  have "heap s2 = heap (snd (new_latch s))"
    by (rule unfired_heap [OF r _ f]) (simp add: new_latch_def)
  then have p: "state (heap (set_latch (next_latch s) s2) q) = Pending"
    using pend by (simp add: set_latch_def new_latch_def)
  show "state (heap (snd (resolveNextPromise q (VThenable (pre @ Throw e # rest)) s)) q) = Rejected"
    "reason (heap (snd (resolveNextPromise q (VThenable (pre @ Throw e # rest)) s)) q) = e"
    by (simp_all add: eq settleRejected_pending [OF p])
qed


lemma calls_thrice_run:
  "run_script calls_thrice (OnResolved 0 0) (OnRejected 0 0) (snd (new_latch one_pending)) =
     (Inr (), adopted_thrice)"
  by (simp add: adopted_thrice_def calls_thrice_def resolveNextPromise.simps one_pending_obs
        new_latch_def set_latch_def catch_latched_def settleFulfilled_def
        drainFulfilled_closed fresh_promise_def)

lemma adopted_thrice_obs:
  "latches adopted_thrice 0 \<and> next_latch adopted_thrice = 1 \<and>
   state (heap adopted_thrice 0) = Fulfilled \<and> result (heap adopted_thrice 0) = VNum 1"
  by (simp add: adopted_thrice_def calls_thrice_def resolveNextPromise.simps one_pending_obs
        new_latch_def set_latch_def catch_latched_def settleFulfilled_def
        drainFulfilled_closed fresh_promise_def)

theorem single_call_latch_witness:
  "latches adopted_thrice 0 \<and> (0::nat) < next_latch adopted_thrice \<and>
   call_fn (OnResolved 0 0) (VNum 5) adopted_thrice = (Inr VUndef, adopted_thrice) \<and>
   call_fn (OnRejected 0 0) (VNum 5) adopted_thrice = (Inr VUndef, adopted_thrice) \<and>
   latches (run 2 adopted_thrice) 0 \<and>
   resolveNextPromise 0 (VThenable (calls_thrice @ Throw (VStr ''boom'') # [])) one_pending =
     (Inr (), adopted_thrice) \<and>
   state (heap adopted_thrice 0) = Fulfilled \<and> result (heap adopted_thrice 0) = VNum 1 \<and>
   \<not> latches one_pending 0 \<and> state (heap one_pending 0) = Pending \<and>
   reason (heap (snd (call_fn (OnRejected 0 0) (VNum 5) one_pending)) 0) = VNum 5 \<and>
   state (heap (snd (resolveNextPromise 0
      (VThenable ([Later [Resolve (VNum 1)]] @ Throw (VStr ''boom'') # [])) one_pending)) 0) =
     Rejected \<and>
   reason (heap (snd (resolveNextPromise 0
      (VThenable ([Later [Resolve (VNum 1)]] @ Throw (VStr ''boom'') # [])) one_pending)) 0) =
     VStr ''boom''"
  using single_call_latch [of adopted_thrice 0 0 "VNum 5" Identity VUndef 2 "[]"
          "[]" "snd (new_latch adopted_thrice)" VUndef "[]"]
    single_call_latch [of one_pending 0 0 "VNum 5" Identity VUndef 2 "[]"
          calls_thrice adopted_thrice "VStr ''boom''" "[]"]
    single_call_latch [of one_pending 0 0 "VNum 5" Identity VUndef 2 "[]"
          "[Later [Resolve (VNum 1)]]"
          "(snd (new_latch one_pending))\<lparr>timers := [([Resolve (VNum 1)], OnResolved 0 0, OnRejected 0 0)]\<rparr>"
          "VStr ''boom''" "[]"]
    calls_thrice_run adopted_thrice_obs one_pending_obs
  by (simp add: new_latch_def fresh_promise_def set_latch_def settleRejected_def
        drainRejected_closed)

section \<open>Deferred reactions\<close>

lemma run_add: "run (m + n) s = run n (run m s)"
  by (induction m arbitrary: s) simp_all


lemma frozen_run: "frozen s (run n s)"
  by (rule frozen_evolves [OF evolves_run [OF ev_refl]])

lemma trace_settleFulfilled [simp]: "trace (settleFulfilled p v s) = trace s"
  by (cases "state (heap s p) = Pending") (simp_all add: settleFulfilled_pending)

lemma trace_settleRejected [simp]: "trace (settleRejected p v s) = trace s"
  by (cases "state (heap s p) = Pending") (simp_all add: settleRejected_pending)

lemma trace_then_op [simp]: "trace (snd (then_op p f g s)) = trace s"
  by (simp add: then_op_def new_promise_def createMicroTask_def Let_def split: pstate.splits)

lemma trace_catch_latched [simp]: "trace (catch_latched l q e s) = trace s"
  by (simp add: catch_latched_def set_latch_def)

lemma trace_silent:
  "silent f \<Longrightarrow> trace (snd (call_fn f v s)) = trace s"
  "trace (snd (resolveNextPromise q w s)) = trace s"
  "silent f' \<Longrightarrow> silent g' \<Longrightarrow> trace (snd (run_script acts f' g' s)) = trace s"
proof (induction f v s and q w s and acts f' g' s rule: call_fn_resolveNextPromise_run_script.induct)
  case (3 l q v s)
  then show ?case
    by (cases "resolveNextPromise q v (set_latch l s)")
       (auto simp: set_latch_def split: sum.splits)
next
  case (13 promise "value" s)
  show ?case
  proof (cases "value")
    case (VThenable acts)
    let ?r = "run_script acts (OnResolved (next_latch s) promise)
                (OnRejected (next_latch s) promise) (snd (new_latch s))"
    have "trace (snd ?r) = trace (snd (new_latch s))"
      using "13.IH" [OF _ _ VThenable] VThenable by simp
    then show ?thesis
      by (cases ?r) (auto simp: VThenable resolveNextPromise.simps new_latch_def split: sum.splits)
  qed (auto simp: resolveNextPromise.simps new_latch_def set_latch_def)
next
  case (15 v rest f g s)
  then show ?case by (cases "call_fn f v s") (auto split: sum.splits)
next
  case (16 v rest f g s)
  then show ?case by (cases "call_fn g v s") (auto split: sum.splits)
qed (simp_all add: set_latch_def Let_def)

lemma run_task_User_fulfilled:
  "trace (run_task (FulfilledTask p (User h) q) s) = trace s @ [Called (fst h) [result (heap s p)]]"
proof -
  let ?s1 = "s\<lparr>trace := trace s @ [Called (fst h) [result (heap s p)]]\<rparr>"
  show ?thesis
  proof (cases "snd h [result (heap s p)]")
    case (Inl e)
    then show ?thesis by simp
  next
    case (Inr w)
    have "trace (snd (resolveNextPromise q w ?s1)) = trace ?s1" by (rule trace_silent(2))
    then show ?thesis using Inr
      by (cases "resolveNextPromise q w ?s1") (auto split: sum.splits)
  qed
qed

lemma run_task_User_rejected:
  "trace (run_task (RejectedTask p (User h) q) s) = trace s @ [Called (fst h) [reason (heap s p)]]"
proof -
  let ?s1 = "s\<lparr>trace := trace s @ [Called (fst h) [reason (heap s p)]]\<rparr>"
  show ?thesis
  proof (cases "snd h [reason (heap s p)]")
    case (Inl e)
    then show ?thesis by simp
  next
    case (Inr w)
    have "trace (snd (resolveNextPromise q w ?s1)) = trace ?s1" by (rule trace_silent(2))
    then show ?thesis using Inr
      by (cases "resolveNextPromise q w ?s1") (auto split: sum.splits)
  qed
qed


lemma grows_refl: "grows s s"
  by (simp add: grows_def)

lemma grows_trans: "grows s s1 \<Longrightarrow> grows s1 s2 \<Longrightarrow> grows s s2"
  by (auto simp: grows_def)

lemma grows_settleFulfilled: "grows s (settleFulfilled p v s)"
  by (cases "state (heap s p) = Pending") (simp_all add: grows_def settleFulfilled_pending)

lemma grows_settleRejected: "grows s (settleRejected p v s)"
  by (cases "state (heap s p) = Pending") (simp_all add: grows_def settleRejected_pending)

lemma grows_then_op: "grows s (snd (then_op p f g s))"
  by (simp add: grows_def then_op_def new_promise_def createMicroTask_def Let_def
        split: pstate.splits)

lemma grows_same: "microtasks s1 = microtasks s \<Longrightarrow> grows s s1"
  by (simp add: grows_def)

lemma grows_catch_latched: "grows s (catch_latched l q e s)"
  unfolding catch_latched_def
  by (auto intro: grows_refl grows_trans [OF grows_same grows_settleRejected]
        simp: set_latch_def)

lemma grows_store_item:
  "grows s
     (snd (let s1 = s\<lparr>arrays := (arrays s)(a := xs)\<rparr>;
               s2 = s1\<lparr>counters := (counters s1)(c := counters s1 c - 1)\<rparr>
           in if counters s2 c = 0 then (r, settleFulfilled P w s2) else (r, s2)))"
  unfolding Let_def
  by (auto intro: grows_same grows_trans [OF grows_same grows_settleFulfilled])

lemma grows_rnp_flat:
  assumes "\<And>acts. w \<noteq> VThenable acts"
  shows "grows s (snd (resolveNextPromise q w s))"
proof -
  have n: "grows s (snd (new_latch s))" by (rule grows_same) (simp add: new_latch_def)
  have m: "grows s (set_latch (next_latch s) (snd (new_latch s)))"
    by (rule grows_same) (simp add: new_latch_def set_latch_def)
  show ?thesis using assms
    by (cases w)
       (auto simp: resolveNextPromise.simps
          intro: grows_refl grows_settleFulfilled grows_trans [OF n grows_then_op]
            grows_trans [OF n grows_catch_latched] n grows_trans [OF m grows_settleFulfilled])
qed

lemma grows_mutual:
  "grows s (snd (call_fn f v s))"
  "grows s (snd (resolveNextPromise q w s))"
  "grows s (snd (run_script acts f' g' s))"
proof (induction f v s and q w s and acts f' g' s rule: call_fn_resolveNextPromise_run_script.induct)
  case (1 p v s)
  show ?case by (simp add: grows_settleFulfilled)
next
  case (2 p v s)
  show ?case by (simp add: grows_settleRejected)
next
  case (3 l q v s)
  have "grows s (set_latch l s)" by (rule grows_same) (simp add: set_latch_def)
  with 3 show ?case
    by (cases "resolveNextPromise q v (set_latch l s)")
       (auto split: sum.splits intro: grows_refl grows_trans)
next
  case (4 l q v s)
  have "grows s (set_latch l s)" by (rule grows_same) (simp add: set_latch_def)
  then show ?case by (auto intro: grows_refl grows_trans grows_settleRejected)
next
  case (7 callback v s)
  show ?case by (auto split: sum.splits intro: grows_same)
next
  case (8 callback v s)
  show ?case by (auto split: sum.splits intro: grows_same)
next
  case (9 c a i P v s)
  show ?case unfolding call_fn.simps by (rule grows_store_item)
next
  case (10 c a i P v s)
  show ?case unfolding call_fn.simps by (rule grows_store_item)
next
  case (11 c a i P v s)
  show ?case unfolding call_fn.simps by (rule grows_store_item)
next
  case (13 promise "value" s)
  show ?case
  proof (cases "\<exists>acts. value = VThenable acts")
    case False
    then show ?thesis by (simp add: grows_rnp_flat)
  next
    case True
    then obtain acts where VThenable: "value = VThenable acts" by blast
    let ?r = "run_script acts (OnResolved (next_latch s) promise)
                (OnRejected (next_latch s) promise) (snd (new_latch s))"
    have n: "grows s (snd (new_latch s))" by (rule grows_same) (simp add: new_latch_def)
    have "grows (snd (new_latch s)) (snd ?r)"
      using "13.IH" [OF _ _ VThenable] VThenable by simp
    then have "grows s (snd ?r)" by (rule grows_trans [OF n])
    then show ?thesis
      by (cases ?r)
         (auto simp: VThenable resolveNextPromise.simps split: sum.splits
            intro: grows_trans [OF _ grows_catch_latched])
  qed
next
  case (15 v rest f g s)
  then show ?case by (cases "call_fn f v s") (auto split: sum.splits intro: grows_trans)
next
  case (16 v rest f g s)
  then show ?case by (cases "call_fn g v s") (auto split: sum.splits intro: grows_trans)
next
  case (18 acts rest f g s)
  have "grows s (s\<lparr>timers := timers s @ [(acts, f, g)]\<rparr>)" by (rule grows_same) simp
  with 18 show ?case by (auto intro: grows_trans)
qed (auto intro: grows_refl grows_same)

lemma grows_run_task: "grows s (run_task t s)"
proof -
  have a: "grows s (snd (call_fn h x s))" for h x by (rule grows_mutual(1))
  have b: "grows s2 (snd (resolveNextPromise q w s2))" for q w s2 by (rule grows_mutual(2))
  show ?thesis
  proof (cases t)
    case (FulfilledTask p h q)
    obtain r s2 where c: "call_fn h (result (heap s p)) s = (r, s2)" by force
    have g2: "grows s s2" using a [of h "result (heap s p)"] c by simp
    show ?thesis
    proof (cases r)
      case (Inl e)
      then show ?thesis using c FulfilledTask grows_trans [OF g2 grows_settleRejected] by simp
    next
      case (Inr w)
      obtain r3 s3 where d: "resolveNextPromise q w s2 = (r3, s3)" by force
      have g3: "grows s s3" using grows_trans [OF g2 b [of s2 q w]] d by simp
      show ?thesis using c d Inr FulfilledTask g3 grows_trans [OF g3 grows_settleRejected]
        by (cases r3) simp_all
    qed
  next
    case (RejectedTask p h q)
    obtain r s2 where c: "call_fn h (reason (heap s p)) s = (r, s2)" by force
    have g2: "grows s s2" using a [of h "reason (heap s p)"] c by simp
    show ?thesis
    proof (cases r)
      case (Inl e)
      then show ?thesis using c RejectedTask grows_trans [OF g2 grows_settleRejected] by simp
    next
      case (Inr w)
      obtain r3 s3 where d: "resolveNextPromise q w s2 = (r3, s3)" by force
      have g3: "grows s s3" using grows_trans [OF g2 b [of s2 q w]] d by simp
      show ?thesis using c d Inr RejectedTask g3 grows_trans [OF g3 grows_settleRejected]
        by (cases r3) simp_all
    qed
  qed
qed


declare run_task.simps [simp del]

lemma step_task: "microtasks s = t # ts \<Longrightarrow> step s = run_task t (s\<lparr>microtasks := ts\<rparr>)"
  by (simp add: step_def)

lemma run_task_keeps_settled:
  assumes "state (heap s p) \<noteq> Pending" "p < next_promise s"
  shows "heap (run_task t s) p = heap s p"
  using frozen_evolves [OF evolves_run_task [OF ev_refl], of s t] assms by (simp add: frozen_def)

lemma two_fulfilled_tasks:
  assumes m: "microtasks s = [FulfilledTask p (User h1) q1, FulfilledTask p (User h2) q2]"
    and st: "state (heap s p) \<noteq> Pending" and al: "p < next_promise s"
  shows "trace (run 2 s) =
           trace s @ [Called (fst h1) [result (heap s p)], Called (fst h2) [result (heap s p)]]"
proof -
  let ?T1 = "FulfilledTask p (User h1) q1" and ?T2 = "FulfilledTask p (User h2) q2"
  let ?s0 = "s\<lparr>microtasks := [?T2]\<rparr>"
  let ?s1 = "run_task ?T1 ?s0"
  have s1: "step s = ?s1" using m by (simp add: step_task)
  have "grows ?s0 ?s1" by (rule grows_run_task)
  then obtain ms where ms: "microtasks ?s1 = ?T2 # ms" by (auto simp: grows_def)
  have h1: "heap ?s1 p = heap s p"
    using run_task_keeps_settled [of ?s0 p ?T1] st al by simp
  have t1: "trace ?s1 = trace s @ [Called (fst h1) [result (heap s p)]]"
    by (simp add: run_task_User_fulfilled)
  have "step ?s1 = run_task ?T2 (?s1\<lparr>microtasks := ms\<rparr>)" by (rule step_task [OF ms])
  then have "trace (step ?s1) = trace ?s1 @ [Called (fst h2) [result (heap ?s1 p)]]"
    by (simp add: run_task_User_fulfilled)
  then have "trace (step (step s)) =
      trace s @ [Called (fst h1) [result (heap s p)], Called (fst h2) [result (heap s p)]]"
    by (simp only: s1 h1 t1) simp
  then show ?thesis by (simp add: numeral_2_eq_2)
qed

lemma two_rejected_tasks:
  assumes m: "microtasks s = [RejectedTask p (User h1) q1, RejectedTask p (User h2) q2]"
    and st: "state (heap s p) \<noteq> Pending" and al: "p < next_promise s"
  shows "trace (run 2 s) =
           trace s @ [Called (fst h1) [reason (heap s p)], Called (fst h2) [reason (heap s p)]]"
proof -
  let ?T1 = "RejectedTask p (User h1) q1" and ?T2 = "RejectedTask p (User h2) q2"
  let ?s0 = "s\<lparr>microtasks := [?T2]\<rparr>"
  let ?s1 = "run_task ?T1 ?s0"
  have s1: "step s = ?s1" using m by (simp add: step_task)
  have "grows ?s0 ?s1" by (rule grows_run_task)
  then obtain ms where ms: "microtasks ?s1 = ?T2 # ms" by (auto simp: grows_def)
  have h1: "heap ?s1 p = heap s p"
    using run_task_keeps_settled [of ?s0 p ?T1] st al by simp
  have t1: "trace ?s1 = trace s @ [Called (fst h1) [reason (heap s p)]]"
    by (simp add: run_task_User_rejected)
  have "step ?s1 = run_task ?T2 (?s1\<lparr>microtasks := ms\<rparr>)" by (rule step_task [OF ms])
  then have "trace (step ?s1) = trace ?s1 @ [Called (fst h2) [reason (heap ?s1 p)]]"
    by (simp add: run_task_User_rejected)
  then have "trace (step (step s)) =
      trace s @ [Called (fst h1) [reason (heap s p)], Called (fst h2) [reason (heap s p)]]"
    by (simp only: s1 h1 t1) simp
  then show ?thesis by (simp add: numeral_2_eq_2)
qed

lemma then_op_settled:
  assumes "p < next_promise s" "state (heap s p) \<noteq> Pending"
  shows "heap (snd (then_op p f g s)) p = heap s p"
    "next_promise (snd (then_op p f g s)) = Suc (next_promise s)"
    "fst (then_op p f g s) = next_promise s"
    "heap (snd (then_op p f g s)) (next_promise s) = fresh_promise"
    "state (heap s p) = Fulfilled \<Longrightarrow>
       microtasks (snd (then_op p f g s)) =
         microtasks s @ [FulfilledTask p (case f of Some h \<Rightarrow> h | None \<Rightarrow> Identity)
                           (next_promise s)]"
    "state (heap s p) = Rejected \<Longrightarrow>
       microtasks (snd (then_op p f g s)) =
         microtasks s @ [RejectedTask p (case g of Some h \<Rightarrow> h | None \<Rightarrow> Thrower)
                           (next_promise s)]"
  using assms
  by (auto simp: then_op_def new_promise_def createMicroTask_def Let_def split: pstate.splits)

lemma then_op_pending:
  assumes "p < next_promise s" "state (heap s p) = Pending"
  shows "heap (snd (then_op p f g s)) p =
           (heap s p)\<lparr>onFulfilledCallbacks := onFulfilledCallbacks (heap s p) @
                         [FulfilledTask p (case f of Some h \<Rightarrow> h | None \<Rightarrow> Identity)
                            (next_promise s)],
                      onRejectedCallbacks := onRejectedCallbacks (heap s p) @
                         [RejectedTask p (case g of Some h \<Rightarrow> h | None \<Rightarrow> Thrower)
                            (next_promise s)]\<rparr>"
    "next_promise (snd (then_op p f g s)) = Suc (next_promise s)"
    "fst (then_op p f g s) = next_promise s"
    "heap (snd (then_op p f g s)) (next_promise s) = fresh_promise"
    "microtasks (snd (then_op p f g s)) = microtasks s"
  using assms
  by (auto simp: then_op_def new_promise_def createMicroTask_def Let_def split: pstate.splits)


lemma fulfilled_one_obs:
  "next_promise fulfilled_one = 1 \<and> state (heap fulfilled_one 0) = Fulfilled \<and>
   result (heap fulfilled_one 0) = VNum 1 \<and> microtasks fulfilled_one = [] \<and>
   timers fulfilled_one = [] \<and> trace fulfilled_one = []"
  by (simp add: fulfilled_one_def resolve_static_def new_promise_def empty_world_def
        fresh_promise_def settleFulfilled_pending)

lemma rejected_one_obs:
  "next_promise rejected_one = 1 \<and> state (heap rejected_one 0) = Rejected \<and>
   reason (heap rejected_one 0) = VStr ''e'' \<and> microtasks rejected_one = [] \<and>
   timers rejected_one = [] \<and> trace rejected_one = []"
  by (simp add: rejected_one_def reject_static_def new_promise_def empty_world_def
        fresh_promise_def settleRejected_pending)

lemma apply_registration:
  "registers p x \<Longrightarrow>
   apply_op x s = snd (then_op p (Some (on_fulfilled x)) (Some (on_rejected x)) s)"
  by (cases x) (auto simp: then_op_def catch_op_def finally_op_def split: option.splits)

lemma registrations_settled:
  "\<forall>x \<in> set xs. registers p x \<Longrightarrow> p < next_promise s \<Longrightarrow> state (heap s p) \<noteq> Pending \<Longrightarrow>
   heap (exec xs s) p = heap s p \<and> next_promise (exec xs s) = next_promise s + length xs \<and>
   trace (exec xs s) = trace s \<and>
   (state (heap s p) = Fulfilled \<longrightarrow>
      microtasks (exec xs s) = microtasks s @ fulfil_reactions p (next_promise s) xs) \<and>
   (state (heap s p) = Rejected \<longrightarrow>
      microtasks (exec xs s) = microtasks s @ reject_reactions p (next_promise s) xs)"
proof (induction xs arbitrary: s)
  case Nil
  show ?case by simp
next
  case (Cons x xs)
  let ?s1 = "apply_op x s"
  have x: "registers p x" using Cons.prems(1) by simp
  note e = apply_registration [OF x, of s]
  note t = then_op_settled [OF Cons.prems(2,3), of "Some (on_fulfilled x)" "Some (on_rejected x)"]
  have 1: "heap ?s1 p = heap s p" "next_promise ?s1 = Suc (next_promise s)"
    "trace ?s1 = trace s"
    unfolding e using t(1,2) by simp_all
  have p1: "p < next_promise ?s1" "state (heap ?s1 p) \<noteq> Pending"
    using 1 Cons.prems(2,3) by simp_all
  have r: "\<forall>x \<in> set xs. registers p x" using Cons.prems(1) by simp
  note ih = Cons.IH [OF r p1]
  have mf: "state (heap s p) = Fulfilled \<Longrightarrow>
      microtasks ?s1 = microtasks s @ [FulfilledTask p (on_fulfilled x) (next_promise s)]"
    unfolding e using t(5) by simp
  have mr: "state (heap s p) = Rejected \<Longrightarrow>
      microtasks ?s1 = microtasks s @ [RejectedTask p (on_rejected x) (next_promise s)]"
    unfolding e using t(6) by simp
  show ?case using ih 1 mf mr by simp
qed

lemma registrations_pending:
  "\<forall>x \<in> set xs. registers p x \<Longrightarrow> p < next_promise s \<Longrightarrow> state (heap s p) = Pending \<Longrightarrow>
   state (heap (exec xs s) p) = Pending \<and>
   next_promise (exec xs s) = next_promise s + length xs \<and>
   trace (exec xs s) = trace s \<and> microtasks (exec xs s) = microtasks s \<and>
   onFulfilledCallbacks (heap (exec xs s) p) =
     onFulfilledCallbacks (heap s p) @ fulfil_reactions p (next_promise s) xs \<and>
   onRejectedCallbacks (heap (exec xs s) p) =
     onRejectedCallbacks (heap s p) @ reject_reactions p (next_promise s) xs"
proof (induction xs arbitrary: s)
  case Nil
  then show ?case by simp
next
  case (Cons x xs)
  let ?s1 = "apply_op x s"
  have x: "registers p x" using Cons.prems(1) by simp
  note e = apply_registration [OF x, of s]
  note t = then_op_pending [OF Cons.prems(2,3), of "Some (on_fulfilled x)" "Some (on_rejected x)"]
  have 1: "state (heap ?s1 p) = Pending" "next_promise ?s1 = Suc (next_promise s)"
    "trace ?s1 = trace s" "microtasks ?s1 = microtasks s"
    "onFulfilledCallbacks (heap ?s1 p) =
       onFulfilledCallbacks (heap s p) @ [FulfilledTask p (on_fulfilled x) (next_promise s)]"
    "onRejectedCallbacks (heap ?s1 p) =
       onRejectedCallbacks (heap s p) @ [RejectedTask p (on_rejected x) (next_promise s)]"
    unfolding e using t Cons.prems(3) by simp_all
  have p1: "p < next_promise ?s1" using 1 Cons.prems(2) by simp
  have r: "\<forall>x \<in> set xs. registers p x" using Cons.prems(1) by simp
  note ih = Cons.IH [OF r p1 1(1)]
  show ?case using ih 1 by simp
qed

lemma registrations_trace:
  "\<forall>x \<in> set xs. registers p x \<Longrightarrow> trace (exec xs s) = trace s"
proof (induction xs arbitrary: s)
  case Nil
  show ?case by simp
next
  case (Cons x xs)
  then have "registers p x" by simp
  from apply_registration [OF this, of s] have "trace (apply_op x s) = trace s" by simp
  with Cons show ?case by simp
qed

lemma call_fn_calls: "trace (snd (call_fn h v s)) = trace s @ calls h v"
proof (cases "silent h")
  case True
  then have "calls h v = []" by (cases h) simp_all
  with trace_silent(1) [OF True, of v s] show ?thesis by simp
next
  case False
  then show ?thesis by (cases h) (auto split: sum.splits)
qed

lemma run_task_called: "trace (run_task t s) = trace s @ called s t"
proof -
  have a: "trace (case call_fn h v s of
             (Inl error, s1) \<Rightarrow> settleRejected q error s1
           | (Inr w, s1) \<Rightarrow>
               (case resolveNextPromise q w s1 of
                  (Inl error, s2) \<Rightarrow> settleRejected q error s2
                | (Inr u, s2) \<Rightarrow> s2)) = trace s @ calls h v" for h v q
  proof -
    obtain r s1 where c: "call_fn h v s = (r, s1)" by force
    have t1: "trace s1 = trace s @ calls h v" using call_fn_calls [of h v s] c by simp
    show ?thesis
    proof (cases r)
      case (Inl e)
      then show ?thesis using c t1 by simp
    next
      case (Inr w)
      have "trace (snd (resolveNextPromise q w s1)) = trace s1" by (rule trace_silent(2))
      then show ?thesis using c t1 Inr
        by (cases "resolveNextPromise q w s1") (auto split: sum.splits)
    qed
  qed
  show ?thesis
    by (cases t) (simp_all only: run_task.simps called.simps a)
qed

lemma called_frozen:
  "frozen s s1 \<Longrightarrow> receiver t < next_promise s \<Longrightarrow> state (heap s (receiver t)) \<noteq> Pending \<Longrightarrow>
   called s1 t = called s t"
  by (cases t) (simp_all add: frozen_def)

lemma step_fifo:
  assumes "microtasks s = t # ts"
  shows "step s = run_task t (s\<lparr>microtasks := ts\<rparr>)"
    "\<exists>extra. microtasks (step s) = ts @ extra"
    "trace (step s) = trace s @ called s t"
proof -
  let ?s0 = "s\<lparr>microtasks := ts\<rparr>"
  show e: "step s = run_task t ?s0" by (rule step_task [OF assms])
  have "grows ?s0 (run_task t ?s0)" by (rule grows_run_task)
  then show "\<exists>extra. microtasks (step s) = ts @ extra" unfolding e by (simp add: grows_def)
  have "called ?s0 t = called s t" by (cases t) simp_all
  then show "trace (step s) = trace s @ called s t" unfolding e run_task_called by simp
qed

lemma run_fifo:
  "microtasks s = ts @ others \<Longrightarrow> \<exists>extra. microtasks (run (length ts) s) = others @ extra"
proof (induction ts arbitrary: s others)
  case Nil
  then show ?case by simp
next
  case (Cons t ts)
  then have m: "microtasks s = t # (ts @ others)" by simp
  from step_fifo(2) [OF m] obtain extra where "microtasks (step s) = ts @ (others @ extra)"
    by auto
  from Cons.IH [OF this] show ?case by auto
qed

lemma run_calls:
  "microtasks s = ts @ others \<Longrightarrow>
   \<forall>t \<in> set ts. receiver t < next_promise s \<and> state (heap s (receiver t)) \<noteq> Pending \<Longrightarrow>
   k \<le> length ts \<Longrightarrow>
   trace (run k s) = trace s @ concat (map (called s) (take k ts))"
proof (induction ts arbitrary: s others k)
  case Nil
  then show ?case by simp
next
  case (Cons t ts)
  show ?case
  proof (cases k)
    case 0
    then show ?thesis by simp
  next
    case (Suc k')
    have m: "microtasks s = t # (ts @ others)" using Cons.prems(1) by simp
    note f = step_fifo [OF m]
    from f(2) obtain extra where m1: "microtasks (step s) = ts @ (others @ extra)" by auto
    have fr: "frozen s (step s)" using frozen_run [of s 1] by simp
    have st: "\<forall>t \<in> set ts. receiver t < next_promise (step s) \<and>
        state (heap (step s) (receiver t)) \<noteq> Pending"
      using Cons.prems(2) fr by (auto simp: frozen_def)
    have k': "k' \<le> length ts" using Cons.prems(3) Suc by simp
    have same: "map (called (step s)) (take k' ts) = map (called s) (take k' ts)"
    proof (rule map_cong [OF refl])
      fix t' assume "t' \<in> set (take k' ts)"
      then have "t' \<in> set ts" by (rule in_set_takeD)
      with Cons.prems(2) show "called (step s) t' = called s t'"
        by (intro called_frozen [OF fr]) simp_all
    qed
    from Cons.IH [OF m1 st k'] show ?thesis
      unfolding Suc by (simp add: f(3) same)
  qed
qed

lemma fulfil_reactions_facts:
  "length (fulfil_reactions p q xs) = length xs"
  "take k (fulfil_reactions p q xs) = fulfil_reactions p q (take k xs)"
  "map (called s) (fulfil_reactions p q xs) =
     map (\<lambda>x. calls (on_fulfilled x) (result (heap s p))) xs"
  "\<forall>t \<in> set (fulfil_reactions p q xs). receiver t = p"
proof -
  show "length (fulfil_reactions p q xs) = length xs"
    by (induction xs arbitrary: q) simp_all
  show "take k (fulfil_reactions p q xs) = fulfil_reactions p q (take k xs)"
  proof (induction xs arbitrary: q k)
    case Nil
    show ?case by simp
  next
    case (Cons x xs)
    then show ?case by (cases k) simp_all
  qed
  show "map (called s) (fulfil_reactions p q xs) =
     map (\<lambda>x. calls (on_fulfilled x) (result (heap s p))) xs"
    by (induction xs arbitrary: q) simp_all
  show "\<forall>t \<in> set (fulfil_reactions p q xs). receiver t = p"
    by (induction xs arbitrary: q) simp_all
qed

lemma reject_reactions_facts:
  "length (reject_reactions p q xs) = length xs"
  "take k (reject_reactions p q xs) = reject_reactions p q (take k xs)"
  "map (called s) (reject_reactions p q xs) =
     map (\<lambda>x. calls (on_rejected x) (reason (heap s p))) xs"
  "\<forall>t \<in> set (reject_reactions p q xs). receiver t = p"
proof -
  show "length (reject_reactions p q xs) = length xs"
    by (induction xs arbitrary: q) simp_all
  show "take k (reject_reactions p q xs) = reject_reactions p q (take k xs)"
  proof (induction xs arbitrary: q k)
    case Nil
    show ?case by simp
  next
    case (Cons x xs)
    then show ?case by (cases k) simp_all
  qed
  show "map (called s) (reject_reactions p q xs) =
     map (\<lambda>x. calls (on_rejected x) (reason (heap s p))) xs"
    by (induction xs arbitrary: q) simp_all
  show "\<forall>t \<in> set (reject_reactions p q xs). receiver t = p"
    by (induction xs arbitrary: q) simp_all
qed

text \<open>
  The reactions \<open>ts\<close> on the settled container \<open>p\<close> stand in the microtask queue
  behind \<open>n\<close> older tasks: after \<open>n\<close> turns, turn after turn calls the next of
  their handlers.
\<close>

lemma queued_reactions_run:
  assumes m: "microtasks w = ms @ ts" and p: "p < next_promise w" "state (heap w p) \<noteq> Pending"
    and r: "\<forall>t \<in> set ts. receiver t = p" and k: "k \<le> length ts"
  shows "trace (run (length ms + k) w) =
           trace (run (length ms) w) @ concat (map (called w) (take k ts))"
proof -
  let ?w1 = "run (length ms) w"
  from run_fifo [OF m] obtain extra where m1: "microtasks ?w1 = ts @ extra" by auto
  have fr: "frozen w ?w1" by (rule frozen_run)
  have p1: "p < next_promise ?w1" "state (heap ?w1 p) \<noteq> Pending"
    using fr p by (auto simp: frozen_def)
  have st: "\<forall>t \<in> set ts. receiver t < next_promise ?w1 \<and>
      state (heap ?w1 (receiver t)) \<noteq> Pending"
    using r p1 by simp
  have same: "map (called ?w1) (take k ts) = map (called w) (take k ts)"
  proof (rule map_cong [OF refl])
    fix t assume "t \<in> set (take k ts)"
    then have "t \<in> set ts" by (rule in_set_takeD)
    with r p show "called ?w1 t = called w t"
      by (intro called_frozen [OF fr]) simp_all
  qed
  show ?thesis
    unfolding run_add run_calls [OF m1 st k] same ..
qed


text \<open>
  Claim C5. A call of \<open>then\<close>, \<open>catch\<close> or \<open>finally\<close> calls no handler: the
  trace of calls is the same when it returns, and so it is after any number of
  registrations on a container \<open>p\<close>. A handler is called when the host runs the
  task of its reaction; the host runs the oldest task of the microtask queue, and
  what a task adds to the queue stands behind the tasks that are there. The
  registrations on a settled container append their reactions to the microtask queue
  in the order of the calls; those on a pending container append them to its two
  queues in that order, and a later fulfilment or rejection moves the queue of its
  kind to the end of the microtask queue, in the same order. So in both cases, once
  the tasks that were queued before have run, the \<open>k\<close> turns that follow call the
  handlers of the first \<open>k\<close> registrations, in the order of registration and each
  of them once, with the result or the reason of the container: the handler given to
  \<open>then\<close> or \<open>catch\<close>, and the callback given to \<open>finally\<close>.
\<close>

theorem reactions_deferred:
  "trace (snd (then_op p f g s)) = trace s \<and>
   trace (snd (catch_op p g s)) = trace s \<and>
   trace (snd (finally_op p cb s)) = trace s \<and>
   trace (run_task t s) = trace s @ called s t \<and>
   (microtasks s = t # ts \<longrightarrow>
      step s = run_task t (s\<lparr>microtasks := ts\<rparr>) \<and>
      (\<exists>extra. microtasks (step s) = ts @ extra) \<and>
      trace (step s) = trace s @ called s t) \<and>
   ((\<forall>x \<in> set xs. registers p x) \<and> p < next_promise s \<longrightarrow>
      trace (exec xs s) = trace s \<and>
      (state (heap s p) = Fulfilled \<longrightarrow>
         microtasks (exec xs s) = microtasks s @ fulfil_reactions p (next_promise s) xs \<and>
         (\<forall>k \<le> length xs.
            trace (run (length (microtasks s) + k) (exec xs s)) =
              trace (run (length (microtasks s)) (exec xs s)) @
              concat (map (\<lambda>x. calls (on_fulfilled x) (result (heap s p))) (take k xs)))) \<and>
      (state (heap s p) = Rejected \<longrightarrow>
         microtasks (exec xs s) = microtasks s @ reject_reactions p (next_promise s) xs \<and>
         (\<forall>k \<le> length xs.
            trace (run (length (microtasks s) + k) (exec xs s)) =
              trace (run (length (microtasks s)) (exec xs s)) @
              concat (map (\<lambda>x. calls (on_rejected x) (reason (heap s p))) (take k xs)))) \<and>
      (state (heap s p) = Pending \<longrightarrow>
         microtasks (exec xs s) = microtasks s \<and>
         onFulfilledCallbacks (heap (exec xs s) p) =
           onFulfilledCallbacks (heap s p) @ fulfil_reactions p (next_promise s) xs \<and>
         onRejectedCallbacks (heap (exec xs s) p) =
           onRejectedCallbacks (heap s p) @ reject_reactions p (next_promise s) xs \<and>
         microtasks (settleFulfilled p v (exec xs s)) =
           (microtasks s @ onFulfilledCallbacks (heap s p)) @
           fulfil_reactions p (next_promise s) xs \<and>
         microtasks (settleRejected p v (exec xs s)) =
           (microtasks s @ onRejectedCallbacks (heap s p)) @
           reject_reactions p (next_promise s) xs \<and>
         (\<forall>k \<le> length xs.
            trace (run (length (microtasks s @ onFulfilledCallbacks (heap s p)) + k)
                     (settleFulfilled p v (exec xs s))) =
              trace (run (length (microtasks s @ onFulfilledCallbacks (heap s p)))
                       (settleFulfilled p v (exec xs s))) @
              concat (map (\<lambda>x. calls (on_fulfilled x) v) (take k xs))) \<and>
         (\<forall>k \<le> length xs.
            trace (run (length (microtasks s @ onRejectedCallbacks (heap s p)) + k)
                     (settleRejected p v (exec xs s))) =
              trace (run (length (microtasks s @ onRejectedCallbacks (heap s p)))
                       (settleRejected p v (exec xs s))) @
              concat (map (\<lambda>x. calls (on_rejected x) v) (take k xs)))))"
proof (intro conjI impI allI)
  show "trace (snd (then_op p f g s)) = trace s" "trace (snd (catch_op p g s)) = trace s"
    "trace (snd (finally_op p cb s)) = trace s"
    by (simp_all add: catch_op_def finally_op_def)
  show "trace (run_task t s) = trace s @ called s t" by (rule run_task_called)
next
  assume m: "microtasks s = t # ts"
  show "step s = run_task t (s\<lparr>microtasks := ts\<rparr>)"
    "\<exists>extra. microtasks (step s) = ts @ extra"
    "trace (step s) = trace s @ called s t"
    by (rule step_fifo [OF m])+
next
  assume a: "(\<forall>x \<in> set xs. registers p x) \<and> p < next_promise s"
  then have r: "\<forall>x \<in> set xs. registers p x" and al: "p < next_promise s" by simp_all
  show "trace (exec xs s) = trace s" by (rule registrations_trace [OF r])
  {
    assume f: "state (heap s p) = Fulfilled"
    then have n: "state (heap s p) \<noteq> Pending" by simp
    note e = registrations_settled [OF r al n]
    let ?q = "next_promise s"
    show m: "microtasks (exec xs s) = microtasks s @ fulfil_reactions p ?q xs"
      using e f by simp
    fix k assume k: "k \<le> length xs"
    have p1: "p < next_promise (exec xs s)" "state (heap (exec xs s) p) \<noteq> Pending"
      using e al n by simp_all
    have k': "k \<le> length (fulfil_reactions p ?q xs)" using k by (simp add: fulfil_reactions_facts)
    have h: "result (heap (exec xs s) p) = result (heap s p)" using e by simp
    show "trace (run (length (microtasks s) + k) (exec xs s)) =
              trace (run (length (microtasks s)) (exec xs s)) @
              concat (map (\<lambda>x. calls (on_fulfilled x) (result (heap s p))) (take k xs))"
      unfolding queued_reactions_run [OF m p1 fulfil_reactions_facts(4) k']
        fulfil_reactions_facts(2,3) h ..
  }
  {
    assume f: "state (heap s p) = Rejected"
    then have n: "state (heap s p) \<noteq> Pending" by simp
    note e = registrations_settled [OF r al n]
    let ?q = "next_promise s"
    show m: "microtasks (exec xs s) = microtasks s @ reject_reactions p ?q xs"
      using e f by simp
    fix k assume k: "k \<le> length xs"
    have p1: "p < next_promise (exec xs s)" "state (heap (exec xs s) p) \<noteq> Pending"
      using e al n by simp_all
    have k': "k \<le> length (reject_reactions p ?q xs)" using k by (simp add: reject_reactions_facts)
    have h: "reason (heap (exec xs s) p) = reason (heap s p)" using e by simp
    show "trace (run (length (microtasks s) + k) (exec xs s)) =
              trace (run (length (microtasks s)) (exec xs s)) @
              concat (map (\<lambda>x. calls (on_rejected x) (reason (heap s p))) (take k xs))"
      unfolding queued_reactions_run [OF m p1 reject_reactions_facts(4) k']
        reject_reactions_facts(2,3) h ..
  }
  {
    assume pd: "state (heap s p) = Pending"
    note e = registrations_pending [OF r al pd]
    let ?q = "next_promise s" and ?w = "exec xs s"
    have pw: "state (heap ?w p) = Pending" using e by simp
    show "microtasks ?w = microtasks s"
      "onFulfilledCallbacks (heap ?w p) =
         onFulfilledCallbacks (heap s p) @ fulfil_reactions p ?q xs"
      "onRejectedCallbacks (heap ?w p) =
         onRejectedCallbacks (heap s p) @ reject_reactions p ?q xs"
      using e by simp_all
    show mf: "microtasks (settleFulfilled p v ?w) =
           (microtasks s @ onFulfilledCallbacks (heap s p)) @ fulfil_reactions p ?q xs"
      unfolding settleFulfilled_pending [OF pw] using e by simp
    show mr: "microtasks (settleRejected p v ?w) =
           (microtasks s @ onRejectedCallbacks (heap s p)) @ reject_reactions p ?q xs"
      unfolding settleRejected_pending [OF pw] using e by simp
    have alw: "p < next_promise ?w" using e al by simp
    have pf: "p < next_promise (settleFulfilled p v ?w)"
      "state (heap (settleFulfilled p v ?w) p) \<noteq> Pending"
      "result (heap (settleFulfilled p v ?w) p) = v"
      unfolding settleFulfilled_pending [OF pw] using alw by simp_all
    have pr: "p < next_promise (settleRejected p v ?w)"
      "state (heap (settleRejected p v ?w) p) \<noteq> Pending"
      "reason (heap (settleRejected p v ?w) p) = v"
      unfolding settleRejected_pending [OF pw] using alw by simp_all
    {
      fix k assume k: "k \<le> length xs"
      have k': "k \<le> length (fulfil_reactions p ?q xs)"
        using k by (simp add: fulfil_reactions_facts)
      show "trace (run (length (microtasks s @ onFulfilledCallbacks (heap s p)) + k)
                     (settleFulfilled p v ?w)) =
              trace (run (length (microtasks s @ onFulfilledCallbacks (heap s p)))
                       (settleFulfilled p v ?w)) @
              concat (map (\<lambda>x. calls (on_fulfilled x) v) (take k xs))"
        unfolding queued_reactions_run [OF mf pf(1,2) fulfil_reactions_facts(4) k']
          fulfil_reactions_facts(2,3) pf(3) ..
    }
    {
      fix k assume k: "k \<le> length xs"
      have k': "k \<le> length (reject_reactions p ?q xs)"
        using k by (simp add: reject_reactions_facts)
      show "trace (run (length (microtasks s @ onRejectedCallbacks (heap s p)) + k)
                     (settleRejected p v ?w)) =
              trace (run (length (microtasks s @ onRejectedCallbacks (heap s p)))
                       (settleRejected p v ?w)) @
              concat (map (\<lambda>x. calls (on_rejected x) v) (take k xs))"
        unfolding queued_reactions_run [OF mr pr(1,2) reject_reactions_facts(4) k']
          reject_reactions_facts(2,3) pr(3) ..
    }
  }
qed


theorem reactions_deferred_witness:
  "list_all (registers 0) three_registrations \<and>
   (0::nat) < next_promise fulfilled_one \<and> state (heap fulfilled_one 0) = Fulfilled \<and>
   microtasks fulfilled_one = [] \<and>
   trace (exec three_registrations fulfilled_one) = [] \<and>
   microtasks (exec three_registrations fulfilled_one) =
     [FulfilledTask 0 (User first_handler) 1, FulfilledTask 0 (FinallyOk labelled_callback) 2,
      FulfilledTask 0 Identity 3] \<and>
   trace (run 1 (exec three_registrations fulfilled_one)) = [Called 1 [VNum 1]] \<and>
   trace (run 3 (exec three_registrations fulfilled_one)) = [Called 1 [VNum 1], Called 3 []] \<and>
   (0::nat) < next_promise rejected_one \<and> state (heap rejected_one 0) = Rejected \<and>
   microtasks rejected_one = [] \<and>
   trace (run 3 (exec three_registrations rejected_one)) =
     [Called 2 [VStr ''e''], Called 3 [], Called 2 [VStr ''e'']] \<and>
   (0::nat) < next_promise one_pending \<and> state (heap one_pending 0) = Pending \<and>
   microtasks one_pending = [] \<and> onRejectedCallbacks (heap one_pending 0) = [] \<and>
   microtasks (exec three_registrations one_pending) = [] \<and>
   microtasks (settleRejected 0 (VNum 7) (exec three_registrations one_pending)) =
     [RejectedTask 0 (User second_handler) 1, RejectedTask 0 (FinallyErr labelled_callback) 2,
      RejectedTask 0 (User second_handler) 3] \<and>
   trace (run 2 (settleRejected 0 (VNum 7) (exec three_registrations one_pending))) =
     trace one_pending @ [Called 2 [VNum 7], Called 3 []] \<and>
   trace (run 3 (settleFulfilled 0 (VNum 7) (exec three_registrations one_pending))) =
     trace one_pending @ [Called 1 [VNum 7], Called 3 []] \<and>
   microtasks (snd (then_op 0 (Some (User first_handler)) None fulfilled_one)) =
     FulfilledTask 0 (User first_handler) 1 # [] \<and>
   trace (step (snd (then_op 0 (Some (User first_handler)) None fulfilled_one))) =
     [Called 1 [VNum 1]]"
proof -
  note F = reactions_deferred [where p = 0 and s = fulfilled_one and xs = three_registrations
      and v = "VNum 7" and f = None and g = None and cb = labelled_callback
      and t = "FulfilledTask 0 (User first_handler) 1" and ts = "[]"]
  note R = reactions_deferred [where p = 0 and s = rejected_one and xs = three_registrations
      and v = "VNum 7" and f = None and g = None and cb = labelled_callback
      and t = "FulfilledTask 0 (User first_handler) 1" and ts = "[]"]
  note P = reactions_deferred [where p = 0 and s = one_pending and xs = three_registrations
      and v = "VNum 7" and f = None and g = None and cb = labelled_callback
      and t = "FulfilledTask 0 (User first_handler) 1" and ts = "[]"]
  note S = reactions_deferred [where p = 0
      and s = "snd (then_op 0 (Some (User first_handler)) None fulfilled_one)"
      and xs = "[]" and v = "VNum 7" and f = None and g = None and cb = labelled_callback
      and t = "FulfilledTask 0 (User first_handler) 1" and ts = "[]"]
  have reg: "\<forall>x \<in> set three_registrations. registers 0 x"
    by (simp add: three_registrations_def)
  have len: "length three_registrations = 3" by (simp add: three_registrations_def)
  have f0: "(0::nat) < next_promise fulfilled_one" "state (heap fulfilled_one 0) = Fulfilled"
    "microtasks fulfilled_one = []" "trace fulfilled_one = []"
    "result (heap fulfilled_one 0) = VNum 1" "next_promise fulfilled_one = 1"
    using fulfilled_one_obs by simp_all
  have r0: "(0::nat) < next_promise rejected_one" "state (heap rejected_one 0) = Rejected"
    "microtasks rejected_one = []" "trace rejected_one = []"
    "reason (heap rejected_one 0) = VStr ''e''"
    using rejected_one_obs by simp_all
  have p0: "(0::nat) < next_promise one_pending" "state (heap one_pending 0) = Pending"
    "microtasks one_pending = []" "onRejectedCallbacks (heap one_pending 0) = []"
    "onFulfilledCallbacks (heap one_pending 0) = []" "next_promise one_pending = 1"
    using one_pending_obs by (simp_all add: fresh_promise_def)
  from F reg f0 have F1: "trace (exec three_registrations fulfilled_one) = []"
    and F2: "microtasks (exec three_registrations fulfilled_one) =
      fulfil_reactions 0 1 three_registrations"
    and F3: "\<forall>k \<le> length three_registrations.
      trace (run k (exec three_registrations fulfilled_one)) =
        concat (map (\<lambda>x. calls (on_fulfilled x) (VNum 1)) (take k three_registrations))"
    by simp_all
  from R reg r0 have R3: "\<forall>k \<le> length three_registrations.
      trace (run k (exec three_registrations rejected_one)) =
        concat (map (\<lambda>x. calls (on_rejected x) (VStr ''e'')) (take k three_registrations))"
    by simp
  from P reg p0 have P1: "microtasks (exec three_registrations one_pending) = []"
    and P2: "microtasks (settleRejected 0 (VNum 7) (exec three_registrations one_pending)) =
      reject_reactions 0 1 three_registrations"
    and P3: "\<forall>k \<le> length three_registrations.
      trace (run k (settleRejected 0 (VNum 7) (exec three_registrations one_pending))) =
        trace one_pending @
        concat (map (\<lambda>x. calls (on_rejected x) (VNum 7)) (take k three_registrations))"
    and P4: "\<forall>k \<le> length three_registrations.
      trace (run k (settleFulfilled 0 (VNum 7) (exec three_registrations one_pending))) =
        trace one_pending @
        concat (map (\<lambda>x. calls (on_fulfilled x) (VNum 7)) (take k three_registrations))"
    by simp_all
  have m1: "microtasks (snd (then_op 0 (Some (User first_handler)) None fulfilled_one)) =
     FulfilledTask 0 (User first_handler) 1 # []"
    "trace (snd (then_op 0 (Some (User first_handler)) None fulfilled_one)) = []"
    "result (heap (snd (then_op 0 (Some (User first_handler)) None fulfilled_one)) 0) = VNum 1"
    using f0 by (simp_all add: then_op_settled)
  have S1: "trace (step (snd (then_op 0 (Some (User first_handler)) None fulfilled_one))) =
     [Called 1 [VNum 1]]"
    using S [THEN conjunct2, THEN conjunct2, THEN conjunct2, THEN conjunct2, THEN conjunct1,
             rule_format, OF m1(1), THEN conjunct2, THEN conjunct2] m1(2,3)
    by (simp add: first_handler_def)
  have reg': "list_all (registers 0) three_registrations"
    using reg by (simp add: list_all_iff)
  show ?thesis
    using reg' f0(1,2,3) r0(1,2,3) p0(1,2,3,4) F1 F2 F3 [rule_format, of 1] F3 [rule_format, of 3]
      R3 [rule_format, of 3] P1 P2 P3 [rule_format, of 2] P4 [rule_format, of 3] m1(1) S1
    by (simp add: three_registrations_def first_handler_def second_handler_def
          labelled_callback_def)
qed

section \<open>The handlers of finally\<close>

lemmas eval_defs =
  construct_def then_op_def catch_op_def finally_op_def resolve_static_def reject_static_def
  step_def new_promise_def new_latch_def new_counter_def new_array_def set_latch_def
  empty_world_def fresh_promise_def settleFulfilled_def settleRejected_def
  drainFulfilled_closed drainRejected_closed createMicroTask_def catch_latched_def
  run_task.simps resolveNextPromise.simps idle_def

lemma resolveNextPromise_primitive:
  "\<not> is_object w \<Longrightarrow> resolveNextPromise q w s = (Inr (), settleFulfilled q w s)"
  by (cases w) (simp_all add: resolveNextPromise.simps)

lemma run_task_FinallyOk:
  "run_task (FulfilledTask p (FinallyOk cb) q) s =
     (case snd cb [] of
        Inl e \<Rightarrow> settleRejected q e (s\<lparr>trace := trace s @ [Called (fst cb) []]\<rparr>)
      | Inr x \<Rightarrow>
          (case resolveNextPromise q (result (heap s p))
                  (s\<lparr>trace := trace s @ [Called (fst cb) []]\<rparr>) of
             (Inl e, s2) \<Rightarrow> settleRejected q e s2
           | (Inr u, s2) \<Rightarrow> s2))"
  by (simp add: run_task.simps split: sum.splits)

lemma run_task_FinallyErr:
  "run_task (RejectedTask p (FinallyErr cb) q) s =
     settleRejected q (case snd cb [] of Inl e \<Rightarrow> e | Inr x \<Rightarrow> reason (heap s p))
       (s\<lparr>trace := trace s @ [Called (fst cb) []]\<rparr>)"
  by (simp add: run_task.simps split: sum.splits)

lemma finally_on_fulfilled_obs:
  "state (heap (exec finally_on_fulfilled empty_world) 2) = Fulfilled \<and>
   result (heap (exec finally_on_fulfilled empty_world) 2) = VStr ''ok'' \<and>
   state (heap (exec finally_on_fulfilled empty_world) 1) = Rejected \<and>
   reason (heap (exec finally_on_fulfilled empty_world) 1) = VStr ''e'' \<and>
   snd returns_rejected [] = Inr (VPromise 1) \<and>
   trace (exec finally_on_fulfilled empty_world) = [Called 9 []] \<and>
   idle (exec finally_on_fulfilled empty_world)"
  by (simp add: finally_on_fulfilled_def returns_rejected_def finally_op_def then_op_def
        resolve_static_def reject_static_def step_def new_promise_def empty_world_def
        fresh_promise_def settleFulfilled_def settleRejected_def drainFulfilled_closed
        drainRejected_closed createMicroTask_def run_task.simps resolveNextPromise.simps
        idle_def)

theorem finally_ignores_rejected_return_counterexample:
  "snd returns_rejected [] = Inr (VPromise 1) \<and>
   state (heap (exec finally_on_fulfilled empty_world) 1) = Rejected \<and>
   state (heap (exec finally_on_fulfilled empty_world) 2) = Fulfilled \<and>
   result (heap (exec finally_on_fulfilled empty_world) 2) = VStr ''ok''"
  using finally_on_fulfilled_obs by simp

lemma settled_pair_obs:
  "next_promise settled_pair = 2 \<and> microtasks settled_pair = [] \<and> trace settled_pair = [] \<and>
   state (heap settled_pair 0) = Fulfilled \<and> result (heap settled_pair 0) = VStr ''ok'' \<and>
   state (heap settled_pair 1) = Rejected \<and> reason (heap settled_pair 1) = VStr ''boom''"
  by (simp add: settled_pair_def resolve_static_def reject_static_def new_promise_def
        empty_world_def fresh_promise_def settleFulfilled_def settleRejected_def
        drainFulfilled_closed drainRejected_closed)

lemma finally_op_settled:
  assumes "p < next_promise s" "microtasks s = []"
  shows "state (heap s p) = Fulfilled \<Longrightarrow>
           step (snd (finally_op p cb s)) =
             run_task (FulfilledTask p (FinallyOk cb) (next_promise s))
               ((snd (new_promise s))\<lparr>microtasks := []\<rparr>)"
    "state (heap s p) = Rejected \<Longrightarrow>
           step (snd (finally_op p cb s)) =
             run_task (RejectedTask p (FinallyErr cb) (next_promise s))
               ((snd (new_promise s))\<lparr>microtasks := []\<rparr>)"
  using assms
  by (simp_all add: finally_op_def then_op_def new_promise_def createMicroTask_def step_def)


lemma heap_settleFulfilled_other: "p \<noteq> q \<Longrightarrow> heap (settleFulfilled q v s) p = heap s p"
  by (cases "state (heap s q) = Pending") (simp_all add: settleFulfilled_pending)

lemma heap_settleRejected_other: "p \<noteq> q \<Longrightarrow> heap (settleRejected q v s) p = heap s p"
  by (cases "state (heap s q) = Pending") (simp_all add: settleRejected_pending)

lemma settleFulfilled_takes:
  "state (heap s q) = Pending \<Longrightarrow> state (heap (settleFulfilled q v s) q) = Fulfilled"
  "state (heap s q) = Pending \<Longrightarrow> result (heap (settleFulfilled q v s) q) = v"
  by (simp_all add: settleFulfilled_pending)

lemma settleRejected_takes:
  "state (heap s q) = Pending \<Longrightarrow> state (heap (settleRejected q v s) q) = Rejected"
  "state (heap s q) = Pending \<Longrightarrow> reason (heap (settleRejected q v s) q) = v"
  by (simp_all add: settleRejected_pending)

lemma finally_rejected_path:
  assumes "p < next_promise s" "microtasks s = []" "state (heap s p) = Rejected"
  shows "step (snd (finally_op p cb s)) =
           settleRejected (next_promise s)
             (case snd cb [] of Inl e \<Rightarrow> e | Inr x \<Rightarrow> reason (heap s p))
             ((snd (new_promise s))\<lparr>microtasks := [],
                 trace := trace s @ [Called (fst cb) []]\<rparr>)"
  using assms
  by (simp add: finally_op_settled(2) run_task_FinallyErr new_promise_def split: sum.splits)

lemma finally_fulfilled_path:
  assumes "p < next_promise s" "microtasks s = []" "state (heap s p) = Fulfilled"
  shows "step (snd (finally_op p cb s)) =
           (case snd cb [] of
              Inl e \<Rightarrow>
                settleRejected (next_promise s) e
                  ((snd (new_promise s))\<lparr>microtasks := [],
                      trace := trace s @ [Called (fst cb) []]\<rparr>)
            | Inr x \<Rightarrow>
                (case resolveNextPromise (next_promise s) (result (heap s p))
                        ((snd (new_promise s))\<lparr>microtasks := [],
                            trace := trace s @ [Called (fst cb) []]\<rparr>) of
                   (Inl e, s2) \<Rightarrow> settleRejected (next_promise s) e s2
                 | (Inr u, s2) \<Rightarrow> s2))"
  using assms
  by (simp add: finally_op_settled(1) run_task_FinallyOk new_promise_def split: sum.splits)

lemma trace_forwarded:
  "trace (case resolveNextPromise q w s of
            (Inl e, s2) \<Rightarrow> settleRejected q e s2
          | (Inr u, s2) \<Rightarrow> s2) = trace s"
  using trace_silent(2) [of q w s]
  by (cases "resolveNextPromise q w s") (auto split: sum.splits)

lemma forwarded_plain:
  assumes "\<not> is_object w \<or> w = VObject \<or> w = VArr a \<or> w = VTypeError m \<or> w = VOutcome k u"
    and "state (heap s q) = Pending"
  shows "fst (resolveNextPromise q w s) = Inr ()"
    "state (heap (snd (resolveNextPromise q w s)) q) = Fulfilled"
    "result (heap (snd (resolveNextPromise q w s)) q) = w"
  using assms
  by (cases w; simp add: resolveNextPromise.simps new_latch_def set_latch_def
        settleFulfilled_pending)+

lemma forwarded_getter:
  assumes "state (heap s q) = Pending"
  shows "fst (resolveNextPromise q (VGetterThrows e) s) = Inr ()"
    "state (heap (snd (resolveNextPromise q (VGetterThrows e) s)) q) = Rejected"
    "reason (heap (snd (resolveNextPromise q (VGetterThrows e) s)) q) = e"
  using assms
  by (simp_all add: resolveNextPromise.simps new_latch_def set_latch_def catch_latched_def
        settleRejected_pending)

lemma forwarded_rejecting:
  assumes pend: "state (heap s q) = Pending" and al: "q < next_promise s"
  shows "fst (resolveNextPromise q (VThenable (Reject z # rest)) s) = Inr ()"
    "state (heap (snd (resolveNextPromise q (VThenable (Reject z # rest)) s)) q) = Rejected"
    "reason (heap (snd (resolveNextPromise q (VThenable (Reject z # rest)) s)) q) = z"
proof -
  let ?l = "next_latch s"
  let ?s1 = "set_latch ?l (snd (new_latch s))"
  let ?s2 = "settleRejected q z ?s1"
  let ?r = "run_script rest (OnResolved ?l q) (OnRejected ?l q) ?s2"
  let ?W = "snd (resolveNextPromise q (VThenable (Reject z # rest)) s)"
  have p1: "state (heap ?s1 q) = Pending" using pend by (simp add: new_latch_def set_latch_def)
  have 2: "state (heap ?s2 q) = Rejected" "reason (heap ?s2 q) = z" "q < next_promise ?s2"
    unfolding settleRejected_pending [OF p1]
    using al by (simp_all add: new_latch_def set_latch_def)
  have e: "resolveNextPromise q (VThenable (Reject z # rest)) s =
             (case ?r of (Inl error, s3) \<Rightarrow> (Inr (), catch_latched ?l q error s3)
                       | (Inr u, s3) \<Rightarrow> (Inr (), s3))"
    by (simp add: resolveNextPromise.simps new_latch_def)
  show "fst (resolveNextPromise q (VThenable (Reject z # rest)) s) = Inr ()"
    unfolding e by (cases ?r) (auto split: sum.splits)
  have "evolves ?s2 (snd ?r)" by (rule evolves_run_script [OF ev_refl])
  then have "evolves ?s2 ?W"
    unfolding e by (cases ?r) (auto split: sum.splits intro: ev_catch_latched)
  from frozen_evolves [OF this] 2 have "heap ?W q = heap ?s2 q" by (simp add: frozen_def)
  with 2 show "state (heap ?W q) = Rejected" "reason (heap ?W q) = z" by simp_all
qed

lemma settled_by_procedure:
  assumes "fst (resolveNextPromise q w s) = Inr ()"
  shows "(case resolveNextPromise q w s of
            (Inl e, s2) \<Rightarrow> settleRejected q e s2
          | (Inr u, s2) \<Rightarrow> s2) = snd (resolveNextPromise q w s)"
  using assms by (cases "resolveNextPromise q w s") (auto split: sum.splits)

lemma run_task_FinallyOk_returns:
  assumes cb: "snd cb [] = Inr x" and pend: "state (heap s q) = Pending"
    and al: "q < next_promise s"
  shows "trace (run_task (FulfilledTask p (FinallyOk cb) q) s) = trace s @ [Called (fst cb) []]"
    "\<not> is_object (result (heap s p)) \<or> result (heap s p) = VObject \<or>
     result (heap s p) = VArr a \<or> result (heap s p) = VTypeError m \<or>
     result (heap s p) = VOutcome k u \<Longrightarrow>
       state (heap (run_task (FulfilledTask p (FinallyOk cb) q) s) q) = Fulfilled \<and>
       result (heap (run_task (FulfilledTask p (FinallyOk cb) q) s) q) = result (heap s p)"
    "result (heap s p) = VThenable (Reject z # rest) \<Longrightarrow>
       state (heap (run_task (FulfilledTask p (FinallyOk cb) q) s) q) = Rejected \<and>
       reason (heap (run_task (FulfilledTask p (FinallyOk cb) q) s) q) = z"
    "result (heap s p) = VGetterThrows z \<Longrightarrow>
       state (heap (run_task (FulfilledTask p (FinallyOk cb) q) s) q) = Rejected \<and>
       reason (heap (run_task (FulfilledTask p (FinallyOk cb) q) s) q) = z"
proof -
  let ?s1 = "s\<lparr>trace := trace s @ [Called (fst cb) []]\<rparr>"
  let ?w = "result (heap s p)"
  have e: "run_task (FulfilledTask p (FinallyOk cb) q) s =
             (case resolveNextPromise q ?w ?s1 of
                (Inl e, s2) \<Rightarrow> settleRejected q e s2
              | (Inr u, s2) \<Rightarrow> s2)"
    using cb by (simp add: run_task_FinallyOk)
  have p1: "state (heap ?s1 q) = Pending" "q < next_promise ?s1" using pend al by simp_all
  show "trace (run_task (FulfilledTask p (FinallyOk cb) q) s) = trace s @ [Called (fst cb) []]"
    unfolding e trace_forwarded by simp
  {
    assume pl: "\<not> is_object ?w \<or> ?w = VObject \<or> ?w = VArr a \<or> ?w = VTypeError m \<or>
      ?w = VOutcome k u"
    note f = forwarded_plain [OF pl p1(1)]
    show "state (heap (run_task (FulfilledTask p (FinallyOk cb) q) s) q) = Fulfilled \<and>
       result (heap (run_task (FulfilledTask p (FinallyOk cb) q) s) q) = ?w"
      unfolding e settled_by_procedure [OF f(1)] using f(2,3) by simp
  }
  {
    assume t: "?w = VThenable (Reject z # rest)"
    note f = forwarded_rejecting [OF p1, of z rest]
    show "state (heap (run_task (FulfilledTask p (FinallyOk cb) q) s) q) = Rejected \<and>
       reason (heap (run_task (FulfilledTask p (FinallyOk cb) q) s) q) = z"
      unfolding e t settled_by_procedure [OF f(1)] using f(2,3) by simp
  }
  {
    assume t: "?w = VGetterThrows z"
    note f = forwarded_getter [OF p1(1), of z]
    show "state (heap (run_task (FulfilledTask p (FinallyOk cb) q) s) q) = Rejected \<and>
       reason (heap (run_task (FulfilledTask p (FinallyOk cb) q) s) q) = z"
      unfolding e t settled_by_procedure [OF f(1)] using f(2,3) by simp
  }
qed

lemma run_task_FinallyErr_returns:
  assumes cb: "snd cb [] = Inr x" and pend: "state (heap s q) = Pending" and ne: "p \<noteq> q"
  shows "trace (run_task (RejectedTask p (FinallyErr cb) q) s) = trace s @ [Called (fst cb) []]"
    "state (heap (run_task (RejectedTask p (FinallyErr cb) q) s) q) = Rejected"
    "reason (heap (run_task (RejectedTask p (FinallyErr cb) q) s) q) = reason (heap s p)"
  using cb pend ne by (simp_all add: run_task_FinallyErr settleRejected_pending)

lemma object_results_obs:
  "next_promise object_results = 2 \<and> microtasks object_results = [] \<and>
   trace object_results = [] \<and>
   state (heap object_results 0) = Fulfilled \<and> result (heap object_results 0) = VObject \<and>
   state (heap object_results 1) = Fulfilled \<and>
   result (heap object_results 1) = VThenable [Reject (VStr ''z'')]"
  by (simp add: object_results_def eval_defs)


lemma next_promise_settleFulfilled:
  "next_promise (settleFulfilled p v s) = next_promise s"
  by (cases "state (heap s p) = Pending") (simp_all add: settleFulfilled_pending)

lemma next_promise_settleRejected:
  "next_promise (settleRejected p v s) = next_promise s"
  by (cases "state (heap s p) = Pending") (simp_all add: settleRejected_pending)

text \<open>
  Claim C6, amended. \<open>finally(callback)\<close> calls the callback with no arguments on
  either settlement path, in the turn that runs the reaction, whether the receiver was
  settled when \<open>finally\<close> was called or was settled afterwards. When the callback
  returns, what it returns is discarded, whatever it is, a rejected thenable or
  container included: two callbacks with the same label that both return lead to the
  same world. On rejection the returned container is rejected with the original
  reason. On fulfilment the wrapper returns the original result, which goes through
  the resolution procedure like the value returned by any handler: a result that is
  not an object, or an object without \<open>then\<close>, fulfils the returned container as it
  is; a result that is itself a thenable, with which an executor may have fulfilled
  the receiver, is adopted, so that one that rejects with \<open>z\<close>, or whose \<open>then\<close>
  getter throws \<open>z\<close>, rejects the returned container with \<open>z\<close>.
\<close>

theorem finally_forwards:
  "p < next_promise s \<and> microtasks s = [] \<and> snd cb [] = Inr x \<longrightarrow>
     trace (snd (finally_op p cb s)) = trace s \<and>
     (state (heap s p) = Rejected \<longrightarrow>
        state (heap (step (snd (finally_op p cb s))) (next_promise s)) = Rejected \<and>
        reason (heap (step (snd (finally_op p cb s))) (next_promise s)) = reason (heap s p) \<and>
        trace (step (snd (finally_op p cb s))) = trace s @ [Called (fst cb) []]) \<and>
     (state (heap s p) = Fulfilled \<longrightarrow>
        trace (step (snd (finally_op p cb s))) = trace s @ [Called (fst cb) []] \<and>
        (case resolveNextPromise (next_promise s) (result (heap s p))
                ((snd (new_promise s))\<lparr>microtasks := [],
                    trace := trace s @ [Called (fst cb) []]\<rparr>) of
           (Inl e, s2) \<Rightarrow> settleRejected (next_promise s) e s2
         | (Inr u, s2) \<Rightarrow> s2) = step (snd (finally_op p cb s)) \<and>
        (\<not> is_object (result (heap s p)) \<or> result (heap s p) = VObject \<or>
         result (heap s p) = VArr a \<or> result (heap s p) = VTypeError m \<or>
         result (heap s p) = VOutcome k u \<longrightarrow>
           state (heap (step (snd (finally_op p cb s))) (next_promise s)) = Fulfilled \<and>
           result (heap (step (snd (finally_op p cb s))) (next_promise s)) =
             result (heap s p)) \<and>
        (result (heap s p) = VThenable (Reject z # rest) \<or>
         result (heap s p) = VGetterThrows z \<longrightarrow>
           state (heap (step (snd (finally_op p cb s))) (next_promise s)) = Rejected \<and>
           reason (heap (step (snd (finally_op p cb s))) (next_promise s)) = z)) \<and>
     (state (heap s p) = Pending \<and> onFulfilledCallbacks (heap s p) = [] \<and>
      onRejectedCallbacks (heap s p) = [] \<longrightarrow>
        state (heap (step (settleRejected p v (snd (finally_op p cb s)))) (next_promise s)) =
          Rejected \<and>
        reason (heap (step (settleRejected p v (snd (finally_op p cb s)))) (next_promise s)) =
          v \<and>
        trace (step (settleRejected p v (snd (finally_op p cb s)))) =
          trace s @ [Called (fst cb) []] \<and>
        trace (step (settleFulfilled p v (snd (finally_op p cb s)))) =
          trace s @ [Called (fst cb) []] \<and>
        (\<not> is_object v \<or> v = VObject \<or> v = VArr a \<or> v = VTypeError m \<or>
         v = VOutcome k u \<longrightarrow>
           state (heap (step (settleFulfilled p v (snd (finally_op p cb s)))) (next_promise s)) =
             Fulfilled \<and>
           result (heap (step (settleFulfilled p v (snd (finally_op p cb s)))) (next_promise s)) =
             v) \<and>
        (v = VThenable (Reject z # rest) \<or> v = VGetterThrows z \<longrightarrow>
           state (heap (step (settleFulfilled p v (snd (finally_op p cb s)))) (next_promise s)) =
             Rejected \<and>
           reason (heap (step (settleFulfilled p v (snd (finally_op p cb s)))) (next_promise s)) =
             z)) \<and>
     (state (heap s p) \<noteq> Pending \<and> snd cb' [] = Inr x' \<and> fst cb' = fst cb \<longrightarrow>
        step (snd (finally_op p cb' s)) = step (snd (finally_op p cb s)))"
proof (intro impI conjI)
  assume a: "p < next_promise s \<and> microtasks s = [] \<and> snd cb [] = Inr x"
  let ?q = "next_promise s"
  let ?s0 = "(snd (new_promise s))\<lparr>microtasks := []\<rparr>"
  have cb: "snd cb [] = Inr x" using a by simp
  have ne: "p \<noteq> ?q" using a by simp
  have 0: "state (heap ?s0 ?q) = Pending" "?q < next_promise ?s0" "heap ?s0 p = heap s p"
    "trace ?s0 = trace s"
    using a by (simp_all add: new_promise_def fresh_promise_def)
  show "trace (snd (finally_op p cb s)) = trace s" by (simp add: finally_op_def)
  {
    assume r: "state (heap s p) = Rejected"
    have e: "step (snd (finally_op p cb s)) = run_task (RejectedTask p (FinallyErr cb) ?q) ?s0"
      using finally_op_settled(2) [of p s cb] a r by simp
    note t = run_task_FinallyErr_returns [OF cb 0(1) ne]
    show "state (heap (step (snd (finally_op p cb s))) ?q) = Rejected"
      "reason (heap (step (snd (finally_op p cb s))) ?q) = reason (heap s p)"
      "trace (step (snd (finally_op p cb s))) = trace s @ [Called (fst cb) []]"
      unfolding e t using 0(3,4) by simp_all
  }
  {
    assume f: "state (heap s p) = Fulfilled"
    have e: "step (snd (finally_op p cb s)) = run_task (FulfilledTask p (FinallyOk cb) ?q) ?s0"
      using finally_op_settled(1) [of p s cb] a f by simp
    note t = run_task_FinallyOk_returns [OF cb 0(1,2), of p]
    show "trace (step (snd (finally_op p cb s))) = trace s @ [Called (fst cb) []]"
      unfolding e t(1) using 0(4) by simp
    show "(case resolveNextPromise ?q (result (heap s p))
                  ((snd (new_promise s))\<lparr>microtasks := [],
                      trace := trace s @ [Called (fst cb) []]\<rparr>) of
             (Inl e, s2) \<Rightarrow> settleRejected ?q e s2
           | (Inr u, s2) \<Rightarrow> s2) = step (snd (finally_op p cb s))"
      using finally_fulfilled_path [of p s cb] a f by simp
    {
      assume "\<not> is_object (result (heap s p)) \<or> result (heap s p) = VObject \<or>
         result (heap s p) = VArr a \<or> result (heap s p) = VTypeError m \<or>
         result (heap s p) = VOutcome k u"
      then have "\<not> is_object (result (heap ?s0 p)) \<or> result (heap ?s0 p) = VObject \<or>
         result (heap ?s0 p) = VArr a \<or> result (heap ?s0 p) = VTypeError m \<or>
         result (heap ?s0 p) = VOutcome k u"
        unfolding 0(3) .
      from t(2) [OF this]
      show "state (heap (step (snd (finally_op p cb s))) ?q) = Fulfilled"
        "result (heap (step (snd (finally_op p cb s))) ?q) = result (heap s p)"
        unfolding e 0(3) by simp_all
    }
    {
      assume "result (heap s p) = VThenable (Reject z # rest) \<or>
         result (heap s p) = VGetterThrows z"
      then have "result (heap ?s0 p) = VThenable (Reject z # rest) \<or>
         result (heap ?s0 p) = VGetterThrows z"
        unfolding 0(3) .
      with t(3) [of z rest] t(4) [of z]
      show "state (heap (step (snd (finally_op p cb s))) ?q) = Rejected"
        "reason (heap (step (snd (finally_op p cb s))) ?q) = z"
        unfolding e by blast+
    }
  }
  {
    assume b: "state (heap s p) = Pending \<and> onFulfilledCallbacks (heap s p) = [] \<and>
      onRejectedCallbacks (heap s p) = []"
    let ?s2 = "snd (finally_op p cb s)"
    have 2: "state (heap ?s2 p) = Pending"
      "onFulfilledCallbacks (heap ?s2 p) = [FulfilledTask p (FinallyOk cb) ?q]"
      "onRejectedCallbacks (heap ?s2 p) = [RejectedTask p (FinallyErr cb) ?q]"
      "microtasks ?s2 = []" "heap ?s2 ?q = fresh_promise" "trace ?s2 = trace s"
      "next_promise ?s2 = Suc ?q"
      using a b by (simp_all add: finally_op_def then_op_pending)
    let ?f = "(settleFulfilled p v ?s2)\<lparr>microtasks := []\<rparr>"
    let ?r = "(settleRejected p v ?s2)\<lparr>microtasks := []\<rparr>"
    have sf: "step (settleFulfilled p v ?s2) = run_task (FulfilledTask p (FinallyOk cb) ?q) ?f"
      by (rule step_task) (simp add: settleFulfilled_pending [OF 2(1)] 2)
    have sr: "step (settleRejected p v ?s2) = run_task (RejectedTask p (FinallyErr cb) ?q) ?r"
      by (rule step_task) (simp add: settleRejected_pending [OF 2(1)] 2)
    have hf: "state (heap ?f ?q) = Pending" "?q < next_promise ?f" "result (heap ?f p) = v"
      "trace ?f = trace s"
      using ne 2 by (simp_all add: heap_settleFulfilled_other settleFulfilled_takes
            fresh_promise_def next_promise_settleFulfilled)
    have hr: "state (heap ?r ?q) = Pending" "reason (heap ?r p) = v" "trace ?r = trace s"
      using ne 2 by (simp_all add: heap_settleRejected_other settleRejected_takes
            fresh_promise_def)
    note tr = run_task_FinallyErr_returns [OF cb hr(1) ne]
    note tf = run_task_FinallyOk_returns [OF cb hf(1,2), of p]
    show "state (heap (step (settleRejected p v ?s2)) ?q) = Rejected"
      "reason (heap (step (settleRejected p v ?s2)) ?q) = v"
      "trace (step (settleRejected p v ?s2)) = trace s @ [Called (fst cb) []]"
      unfolding sr tr using hr(2,3) by simp_all
    show "trace (step (settleFulfilled p v ?s2)) = trace s @ [Called (fst cb) []]"
      unfolding sf tf(1) using hf(4) by simp
    {
      assume "\<not> is_object v \<or> v = VObject \<or> v = VArr a \<or> v = VTypeError m \<or>
         v = VOutcome k u"
      then have "\<not> is_object (result (heap ?f p)) \<or> result (heap ?f p) = VObject \<or>
         result (heap ?f p) = VArr a \<or> result (heap ?f p) = VTypeError m \<or>
         result (heap ?f p) = VOutcome k u"
        unfolding hf(3) .
      from tf(2) [OF this]
      show "state (heap (step (settleFulfilled p v ?s2)) ?q) = Fulfilled"
        "result (heap (step (settleFulfilled p v ?s2)) ?q) = v"
        unfolding sf hf(3) by simp_all
    }
    {
      assume "v = VThenable (Reject z # rest) \<or> v = VGetterThrows z"
      then have "result (heap ?f p) = VThenable (Reject z # rest) \<or>
         result (heap ?f p) = VGetterThrows z"
        unfolding hf(3) .
      with tf(3) [of z rest] tf(4) [of z]
      show "state (heap (step (settleFulfilled p v ?s2)) ?q) = Rejected"
        "reason (heap (step (settleFulfilled p v ?s2)) ?q) = z"
        unfolding sf by blast+
    }
  }
  {
    assume b: "state (heap s p) \<noteq> Pending \<and> snd cb' [] = Inr x' \<and> fst cb' = fst cb"
    show "step (snd (finally_op p cb' s)) = step (snd (finally_op p cb s))"
    proof (cases "state (heap s p)")
      case Pending
      with b show ?thesis by simp
    next
      case Fulfilled
      show ?thesis
        using finally_fulfilled_path [of p s cb] finally_fulfilled_path [of p s cb'] a b Fulfilled
        by simp
    next
      case Rejected
      show ?thesis
        using finally_rejected_path [of p s cb] finally_rejected_path [of p s cb'] a b Rejected
        by simp
    qed
  }
qed


theorem finally_forwards_witness:
  "(1::nat) < next_promise settled_pair \<and> microtasks settled_pair = [] \<and>
   snd returns_rejected [] = Inr (VPromise 1) \<and>
   state (heap settled_pair 1) = Rejected \<and>
   state (heap (step (snd (finally_op 1 returns_rejected settled_pair))) 2) = Rejected \<and>
   reason (heap (step (snd (finally_op 1 returns_rejected settled_pair))) 2) = VStr ''boom'' \<and>
   trace (step (snd (finally_op 1 returns_rejected settled_pair))) = [Called 9 []] \<and>
   state (heap settled_pair 0) = Fulfilled \<and> \<not> is_object (result (heap settled_pair 0)) \<and>
   state (heap (step (snd (finally_op 0 returns_rejected settled_pair))) 2) = Fulfilled \<and>
   result (heap (step (snd (finally_op 0 returns_rejected settled_pair))) 2) = VStr ''ok'' \<and>
   snd returns_rejecting_thenable [] = Inr (VThenable [Reject (VStr ''e'')]) \<and>
   fst returns_rejecting_thenable = fst returns_rejected \<and>
   step (snd (finally_op 0 returns_rejecting_thenable settled_pair)) =
     step (snd (finally_op 0 returns_rejected settled_pair)) \<and>
   (1::nat) < next_promise object_results \<and> microtasks object_results = [] \<and>
   state (heap object_results 0) = Fulfilled \<and> result (heap object_results 0) = VObject \<and>
   state (heap (step (snd (finally_op 0 returns_rejected object_results))) 2) = Fulfilled \<and>
   result (heap (step (snd (finally_op 0 returns_rejected object_results))) 2) = VObject \<and>
   state (heap object_results 1) = Fulfilled \<and>
   result (heap object_results 1) = VThenable (Reject (VStr ''z'') # []) \<and>
   state (heap (step (snd (finally_op 1 returns_rejected object_results))) 2) = Rejected \<and>
   reason (heap (step (snd (finally_op 1 returns_rejected object_results))) 2) = VStr ''z'' \<and>
   (0::nat) < next_promise one_pending \<and> microtasks one_pending = [] \<and>
   state (heap one_pending 0) = Pending \<and> onFulfilledCallbacks (heap one_pending 0) = [] \<and>
   onRejectedCallbacks (heap one_pending 0) = [] \<and>
   state (heap (step (settleFulfilled 0 (VNum 3) (snd (finally_op 0 returns_rejected one_pending))))
            1) = Fulfilled \<and>
   result (heap (step (settleFulfilled 0 (VNum 3) (snd (finally_op 0 returns_rejected one_pending))))
             1) = VNum 3 \<and>
   state (heap (step (settleRejected 0 (VNum 3) (snd (finally_op 0 returns_rejected one_pending))))
            1) = Rejected \<and>
   reason (heap (step (settleRejected 0 (VNum 3) (snd (finally_op 0 returns_rejected one_pending))))
             1) = VNum 3"
  using finally_forwards [where p = 1 and s = settled_pair and cb = returns_rejected
          and x = "VPromise 1" and cb' = returns_rejecting_thenable
          and x' = "VThenable [Reject (VStr ''e'')]" and v = "VNum 3" and z = "VStr ''z''"
          and rest = "[]" and a = 0 and m = "[]" and k = Pending and u = VUndef]
    finally_forwards [where p = 0 and s = settled_pair and cb = returns_rejected
          and x = "VPromise 1" and cb' = returns_rejecting_thenable
          and x' = "VThenable [Reject (VStr ''e'')]" and v = "VNum 3" and z = "VStr ''z''"
          and rest = "[]" and a = 0 and m = "[]" and k = Pending and u = VUndef]
    finally_forwards [where p = 0 and s = object_results and cb = returns_rejected
          and x = "VPromise 1" and cb' = returns_rejecting_thenable
          and x' = "VThenable [Reject (VStr ''e'')]" and v = "VNum 3" and z = "VStr ''z''"
          and rest = "[]" and a = 0 and m = "[]" and k = Pending and u = VUndef]
    finally_forwards [where p = 1 and s = object_results and cb = returns_rejected
          and x = "VPromise 1" and cb' = returns_rejecting_thenable
          and x' = "VThenable [Reject (VStr ''e'')]" and v = "VNum 3" and z = "VStr ''z''"
          and rest = "[]" and a = 0 and m = "[]" and k = Pending and u = VUndef]
    finally_forwards [where p = 0 and s = one_pending and cb = returns_rejected
          and x = "VPromise 1" and cb' = returns_rejecting_thenable
          and x' = "VThenable [Reject (VStr ''e'')]" and v = "VNum 3" and z = "VStr ''z''"
          and rest = "[]" and a = 0 and m = "[]" and k = Pending and u = VUndef]
    settled_pair_obs object_results_obs one_pending_obs
  by (simp add: returns_rejected_def returns_rejecting_thenable_def fresh_promise_def)

text \<open>
  Claim C10. When the callback given to \<open>finally\<close> throws, the container that
  \<open>finally\<close> returned is rejected with the thrown error, on the fulfilment path and
  on the rejection path alike, whether the upstream container was settled when
  \<open>finally\<close> was called or was settled afterwards. The thrown error takes the place
  of the original result or reason; the upstream container keeps its own.
\<close>

theorem finally_callback_throws:
  "p < next_promise s \<and> microtasks s = [] \<and> snd cb [] = Inl e \<longrightarrow>
     (state (heap s p) \<noteq> Pending \<longrightarrow>
        state (heap (step (snd (finally_op p cb s))) (next_promise s)) = Rejected \<and>
        reason (heap (step (snd (finally_op p cb s))) (next_promise s)) = e \<and>
        heap (step (snd (finally_op p cb s))) p = heap s p \<and>
        trace (step (snd (finally_op p cb s))) = trace s @ [Called (fst cb) []]) \<and>
     (state (heap s p) = Pending \<and> onFulfilledCallbacks (heap s p) = [] \<and>
      onRejectedCallbacks (heap s p) = [] \<longrightarrow>
        state (heap (step (settleFulfilled p v (snd (finally_op p cb s)))) (next_promise s)) =
          Rejected \<and>
        reason (heap (step (settleFulfilled p v (snd (finally_op p cb s)))) (next_promise s)) =
          e \<and>
        result (heap (step (settleFulfilled p v (snd (finally_op p cb s)))) p) = v \<and>
        state (heap (step (settleRejected p v (snd (finally_op p cb s)))) (next_promise s)) =
          Rejected \<and>
        reason (heap (step (settleRejected p v (snd (finally_op p cb s)))) (next_promise s)) =
          e \<and>
        reason (heap (step (settleRejected p v (snd (finally_op p cb s)))) p) = v)"
proof (intro impI conjI)
  assume a: "p < next_promise s \<and> microtasks s = [] \<and> snd cb [] = Inl e"
  let ?q = "next_promise s"
  let ?s1 = "(snd (new_promise s))\<lparr>microtasks := [],
                 trace := trace s @ [Called (fst cb) []]\<rparr>"
  have pend: "state (heap ?s1 ?q) = Pending"
    by (simp add: new_promise_def fresh_promise_def)
  have keep: "heap ?s1 p = heap s p" using a by (simp add: new_promise_def)
  {
    assume n: "state (heap s p) \<noteq> Pending"
    have e: "step (snd (finally_op p cb s)) = settleRejected ?q e ?s1"
      using finally_rejected_path [of p s cb] finally_fulfilled_path [of p s cb] a n
      by (cases "state (heap s p)") simp_all
    show "state (heap (step (snd (finally_op p cb s))) ?q) = Rejected"
      "reason (heap (step (snd (finally_op p cb s))) ?q) = e"
      "trace (step (snd (finally_op p cb s))) = trace s @ [Called (fst cb) []]"
      unfolding e by (simp_all add: settleRejected_pending [OF pend])
    show "heap (step (snd (finally_op p cb s))) p = heap s p"
      unfolding e using a keep by (simp add: settleRejected_pending [OF pend])
  }
  {
    assume b: "state (heap s p) = Pending \<and> onFulfilledCallbacks (heap s p) = [] \<and>
      onRejectedCallbacks (heap s p) = []"
    let ?s2 = "snd (finally_op p cb s)"
    have 2: "state (heap ?s2 p) = Pending"
      "onFulfilledCallbacks (heap ?s2 p) = [FulfilledTask p (FinallyOk cb) ?q]"
      "onRejectedCallbacks (heap ?s2 p) = [RejectedTask p (FinallyErr cb) ?q]"
      "microtasks ?s2 = []" "heap ?s2 ?q = fresh_promise"
      using a b by (simp_all add: finally_op_def then_op_pending)
    let ?f = "(settleFulfilled p v ?s2)\<lparr>microtasks := []\<rparr>"
    let ?r = "(settleRejected p v ?s2)\<lparr>microtasks := []\<rparr>"
    have sf: "step (settleFulfilled p v ?s2) = run_task (FulfilledTask p (FinallyOk cb) ?q) ?f"
      by (rule step_task) (simp add: settleFulfilled_pending [OF 2(1)] 2)
    have sr: "step (settleRejected p v ?s2) = run_task (RejectedTask p (FinallyErr cb) ?q) ?r"
      by (rule step_task) (simp add: settleRejected_pending [OF 2(1)] 2)
    have ne: "p \<noteq> ?q" using a by simp
    have hf: "heap (settleFulfilled p v ?s2) ?q = fresh_promise"
      "result (heap (settleFulfilled p v ?s2) p) = v"
      using ne 2 by (simp_all add: heap_settleFulfilled_other settleFulfilled_takes)
    have hr: "heap (settleRejected p v ?s2) ?q = fresh_promise"
      "reason (heap (settleRejected p v ?s2) p) = v"
      using ne 2 by (simp_all add: heap_settleRejected_other settleRejected_takes)
    show "state (heap (step (settleFulfilled p v ?s2)) ?q) = Rejected"
      "reason (heap (step (settleFulfilled p v ?s2)) ?q) = e"
      "result (heap (step (settleFulfilled p v ?s2)) p) = v"
      unfolding sf run_task_FinallyOk using a ne hf
      by (simp_all add: settleRejected_takes heap_settleRejected_other fresh_promise_def)
    show "state (heap (step (settleRejected p v ?s2)) ?q) = Rejected"
      "reason (heap (step (settleRejected p v ?s2)) ?q) = e"
      "reason (heap (step (settleRejected p v ?s2)) p) = v"
      unfolding sr run_task_FinallyErr using a ne hr
      by (simp_all add: settleRejected_takes heap_settleRejected_other fresh_promise_def)
  }
qed

theorem finally_callback_throws_witness:
  "(1::nat) < next_promise settled_pair \<and> microtasks settled_pair = [] \<and>
   snd throws_late [] = Inl (VStr ''late'') \<and>
   state (heap settled_pair 0) = Fulfilled \<and> state (heap settled_pair 1) = Rejected \<and>
   state (heap (step (snd (finally_op 0 throws_late settled_pair))) 2) = Rejected \<and>
   reason (heap (step (snd (finally_op 0 throws_late settled_pair))) 2) = VStr ''late'' \<and>
   state (heap (step (snd (finally_op 1 throws_late settled_pair))) 2) = Rejected \<and>
   reason (heap (step (snd (finally_op 1 throws_late settled_pair))) 2) = VStr ''late'' \<and>
   reason (heap (step (snd (finally_op 1 throws_late settled_pair))) 1) = VStr ''boom'' \<and>
   state (heap one_pending 0) = Pending \<and>
   reason (heap (step (settleFulfilled 0 (VNum 3) (snd (finally_op 0 throws_late one_pending)))) 1) =
     VStr ''late'' \<and>
   reason (heap (step (settleRejected 0 (VNum 3) (snd (finally_op 0 throws_late one_pending)))) 1) =
     VStr ''late''"
  using finally_callback_throws [of 0 settled_pair throws_late "VStr ''late''" "VNum 3"]
    finally_callback_throws [of 1 settled_pair throws_late "VStr ''late''" "VNum 3"]
    finally_callback_throws [of 0 one_pending throws_late "VStr ''late''" "VNum 3"]
    settled_pair_obs one_pending_obs
  by (simp add: throws_late_def fresh_promise_def)

section \<open>Cycles\<close>

lemma idle_step: "idle s \<Longrightarrow> step s = s"
  by (simp add: idle_def step_def)

lemma idle_run: "idle s \<Longrightarrow> run n s = s"
  by (induction n) (simp_all add: idle_step)

lemma cycle_direct_obs:
  "state (heap (exec cycle_direct empty_world) 1) = Rejected \<and>
   reason (heap (exec cycle_direct empty_world) 1) = VTypeError ''No cycle chaining'' \<and>
   idle (exec cycle_direct empty_world)"
  by (simp add: cycle_direct_def returns_own_def eval_defs)

lemma cycle_through_thenable_obs:
  "state (heap (exec cycle_through_thenable empty_world) 1) = Pending \<and>
   idle (exec cycle_through_thenable empty_world) \<and>
   trace (exec cycle_through_thenable empty_world) = [Called 7 [VNum 1]]"
  by (simp add: cycle_through_thenable_def returns_thenable_of_own_def eval_defs)

lemma cycle_through_late_thenable_obs:
  "state (heap (exec cycle_through_late_thenable empty_world) 1) = Pending \<and>
   idle (exec cycle_through_late_thenable empty_world) \<and>
   trace (exec cycle_through_late_thenable empty_world) =
     [Called 7 [VNum 1], Uncaught (VTypeError ''No cycle chaining'')]"
  by (simp add: cycle_through_late_thenable_def returns_late_thenable_of_own_def eval_defs)

text \<open>
  Claim C2 at the inputs where the code departs from it. A reaction on a fulfilled
  container returns a thenable whose \<open>then\<close> calls \<open>onResolved\<close> with the container
  that the \<open>then\<close> call of the reaction produced. Called at once, the cycle error
  raised inside \<open>onResolved\<close> reaches the \<open>catch\<close> clause after the latch has
  fired and is dropped; called from a timer, it leaves the timer uncaught. In both
  runs the container is pending when nothing is left to run, and stays so.
\<close>

theorem cycle_through_thenable_never_settles:
  "state (heap (exec cycle_through_thenable empty_world) 1) = Pending \<and>
   idle (exec cycle_through_thenable empty_world) \<and>
   trace (exec cycle_through_thenable empty_world) = [Called 7 [VNum 1]] \<and>
   run n (exec cycle_through_thenable empty_world) = exec cycle_through_thenable empty_world \<and>
   state (heap (exec cycle_through_late_thenable empty_world) 1) = Pending \<and>
   idle (exec cycle_through_late_thenable empty_world) \<and>
   trace (exec cycle_through_late_thenable empty_world) =
     [Called 7 [VNum 1], Uncaught (VTypeError ''No cycle chaining'')] \<and>
   run n (exec cycle_through_late_thenable empty_world) =
     exec cycle_through_late_thenable empty_world"
  using cycle_through_thenable_obs cycle_through_late_thenable_obs by (simp add: idle_run)


section \<open>The static resolve\<close>

lemma resolve_nested_obs:
  "state (heap (exec resolve_nested empty_world) 0) = Fulfilled \<and>
   result (heap (exec resolve_nested empty_world) 0) = inner_thenable \<and>
   idle (exec resolve_nested empty_world)"
  by (simp add: resolve_nested_def nested_thenable_def eval_defs)

lemma raw_script_first_resolve:
  assumes pend: "state (heap s p) = Pending" and al: "p < next_promise s"
    and r: "run_script (Resolve x # rest) (FResolve p) g s = (r, s3)"
  shows "state (heap s3 p) = Fulfilled \<and> result (heap s3 p) = x"
proof -
  let ?s2 = "settleFulfilled p x s"
  have 2: "state (heap ?s2 p) = Fulfilled" "result (heap ?s2 p) = x" "p < next_promise ?s2"
    using al by (simp_all add: settleFulfilled_pending [OF pend])
  have "s3 = snd (run_script rest (FResolve p) g ?s2)" using r by simp
  then have "evolves ?s2 s3" by (simp add: evolves_mutual(3))
  from frozen_evolves [OF this] 2 have "heap s3 p = heap ?s2 p" by (simp add: frozen_def)
  with 2 show ?thesis by simp
qed

text \<open>
  What the static \<open>resolve\<close> does with its argument. It returns a container as
  it is. For every other value it constructs a new container: a value that is not an
  object, or an object without a callable \<open>then\<close>, fulfils it as it is; the
  \<open>then\<close> of a thenable is called with the settlement functions of the new container
  themselves, so a thenable that calls back with a value, at once or from a timer,
  fulfils the container with exactly that value.
\<close>

lemma resolve_static_adopts_one_level:
  "resolve_static (VPromise r) s = (r, s) \<and>
   ((\<forall>r. v \<noteq> VPromise r) \<longrightarrow> fst (resolve_static v s) = next_promise s) \<and>
   (\<not> is_object v \<or> v = VObject \<or> v = VArr a \<or> v = VTypeError m \<or> v = VOutcome k w \<longrightarrow>
      state (heap (snd (resolve_static v s)) (next_promise s)) = Fulfilled \<and>
      result (heap (snd (resolve_static v s)) (next_promise s)) = v) \<and>
   state (heap (snd (resolve_static (VThenable (Resolve x # rest)) s)) (next_promise s)) =
     Fulfilled \<and>
   result (heap (snd (resolve_static (VThenable (Resolve x # rest)) s)) (next_promise s)) = x \<and>
   (microtasks s = [] \<and> timers s = [] \<longrightarrow>
      state (heap (snd (resolve_static (VThenable [Later (Resolve x # rest)]) s))
               (next_promise s)) = Pending \<and>
      state (heap (step (snd (resolve_static (VThenable [Later (Resolve x # rest)]) s)))
               (next_promise s)) = Fulfilled \<and>
      result (heap (step (snd (resolve_static (VThenable [Later (Resolve x # rest)]) s)))
                (next_promise s)) = x)"
proof (intro conjI impI)
  let ?p = "next_promise s"
  let ?s1 = "snd (new_promise s)"
  have pend: "state (heap ?s1 ?p) = Pending" "?p < next_promise ?s1"
    by (simp_all add: new_promise_def fresh_promise_def)
  show "resolve_static (VPromise r) s = (r, s)" by (simp add: resolve_static_def)
  {
    assume "\<forall>r. v \<noteq> VPromise r"
    then show "fst (resolve_static v s) = ?p"
      by (cases v) (auto simp: resolve_static_def new_promise_def split: prod.splits sum.splits)
  }
  {
    assume "\<not> is_object v \<or> v = VObject \<or> v = VArr a \<or> v = VTypeError m \<or> v = VOutcome k w"
    then have "snd (resolve_static v s) = settleFulfilled ?p v ?s1"
      by (cases v) (auto simp: resolve_static_def new_promise_def)
    then show "state (heap (snd (resolve_static v s)) ?p) = Fulfilled"
      "result (heap (snd (resolve_static v s)) ?p) = v"
      by (simp_all add: settleFulfilled_takes [OF pend(1)])
  }
  {
    obtain r2 s3 where r: "run_script (Resolve x # rest) (FResolve ?p) (FReject ?p) ?s1 = (r2, s3)"
      by force
    from raw_script_first_resolve [OF pend r]
    have 3: "state (heap s3 ?p) = Fulfilled" "result (heap s3 ?p) = x" by simp_all
    have "snd (resolve_static (VThenable (Resolve x # rest)) s) = s3"
      using r 3 by (cases r2) (simp_all add: resolve_static_def new_promise_def)
    with 3 show "state (heap (snd (resolve_static (VThenable (Resolve x # rest)) s)) ?p) = Fulfilled"
      "result (heap (snd (resolve_static (VThenable (Resolve x # rest)) s)) ?p) = x"
      by simp_all
  }
  {
    assume e: "microtasks s = [] \<and> timers s = []"
    let ?s2 = "snd (resolve_static (VThenable [Later (Resolve x # rest)]) s)"
    have s2: "?s2 = ?s1\<lparr>timers := [(Resolve x # rest, FResolve ?p, FReject ?p)]\<rparr>"
      using e by (simp add: resolve_static_def new_promise_def)
    show "state (heap ?s2 ?p) = Pending" unfolding s2 using pend by simp
    let ?s0 = "?s1\<lparr>timers := []\<rparr>"
    have st: "step ?s2 = run_timer (Resolve x # rest, FResolve ?p, FReject ?p) ?s0"
      unfolding s2 using e by (simp add: step_def new_promise_def)
    obtain r2 s3 where r: "run_script (Resolve x # rest) (FResolve ?p) (FReject ?p) ?s0 = (r2, s3)"
      by force
    have "state (heap ?s0 ?p) = Pending" "?p < next_promise ?s0" using pend by simp_all
    from raw_script_first_resolve [OF this r]
    have 3: "state (heap s3 ?p) = Fulfilled" "result (heap s3 ?p) = x" by simp_all
    show "state (heap (step ?s2) ?p) = Fulfilled" "result (heap (step ?s2) ?p) = x"
      unfolding st using r 3 by (cases r2; simp)+
  }
qed

lemma resolve_static_adopts_one_level_instances:
  "resolve_static (VPromise 0) fulfilled_one = (0, fulfilled_one) \<and>
   fst (resolve_static (VStr ''X'') empty_world) = 0 \<and>
   result (heap (snd (resolve_static (VStr ''X'') empty_world)) 0) = VStr ''X'' \<and>
   result (heap (snd (resolve_static (VThenable (Resolve (VStr ''X'') # [])) empty_world)) 0) =
     VStr ''X'' \<and>
   microtasks empty_world = [] \<and> timers empty_world = [] \<and>
   state (heap (step (snd (resolve_static (VThenable [Later (Resolve (VStr ''X'') # [])])
      empty_world))) 0) = Fulfilled \<and>
   result (heap (step (snd (resolve_static (VThenable [Later (Resolve (VStr ''X'') # [])])
      empty_world))) 0) = VStr ''X'' \<and>
   result (heap (step (snd (resolve_static (VThenable [Later (Resolve inner_thenable # [])])
      empty_world))) 0) = inner_thenable"
  using resolve_static_adopts_one_level [of 0 fulfilled_one "VStr ''X''" 0 "[]" Pending VUndef
          "VStr ''X''" "[]"]
    resolve_static_adopts_one_level [of 0 empty_world "VStr ''X''" 0 "[]" Pending VUndef
          "VStr ''X''" "[]"]
    resolve_static_adopts_one_level [of 0 empty_world "VStr ''X''" 0 "[]" Pending VUndef
          inner_thenable "[]"]
  by (simp add: empty_world_def)

lemma then_nested_obs:
  "snd returns_nested [VNum 1] = Inr nested_thenable \<and>
   state (heap (exec then_nested empty_world) 1) = Fulfilled \<and>
   result (heap (exec then_nested empty_world) 1) = VStr ''X'' \<and>
   idle (exec then_nested empty_world)"
  by (simp add: then_nested_def returns_nested_def nested_thenable_def inner_thenable_def
        eval_defs)

text \<open>
  Claim C3 at the input where the code departs from it. \<open>resolve\<close> is called with a
  thenable that calls back from a timer with a second thenable, which calls back from a
  timer with \<open>"X"\<close>. The static method hands the settlement functions of the new
  container to the first thenable, so the container is fulfilled with the second
  thenable itself, never with \<open>"X"\<close>, and nothing is left to run. The resolution
  procedure of \<open>then\<close> adopts the same value through both levels: a handler that
  returns it fulfils the container of its \<open>then\<close> call with \<open>"X"\<close>.
\<close>

theorem resolve_static_keeps_nested_thenable:
  "state (heap (exec resolve_nested empty_world) 0) = Fulfilled \<and>
   result (heap (exec resolve_nested empty_world) 0) = inner_thenable \<and>
   inner_thenable \<noteq> VStr ''X'' \<and>
   idle (exec resolve_nested empty_world) \<and>
   run n (exec resolve_nested empty_world) = exec resolve_nested empty_world \<and>
   snd returns_nested [VNum 1] = Inr nested_thenable \<and>
   state (heap (exec then_nested empty_world) 1) = Fulfilled \<and>
   result (heap (exec then_nested empty_world) 1) = VStr ''X''"
  using resolve_nested_obs then_nested_obs by (simp add: inner_thenable_def idle_run)

section \<open>Storing results by position\<close>






section \<open>Running the reactions of all and allSettled\<close>










section \<open>The loops of all and allSettled\<close>







lemma then_op_cells [simp]:
  "counters (snd (then_op p f g s)) = counters s"
  "arrays (snd (then_op p f g s)) = arrays s"
  by (simp_all add: then_op_def new_promise_def createMicroTask_def Let_def split: pstate.splits)










section \<open>all and allSettled on settled items\<close>













section \<open>The loops on pending items\<close>





section \<open>One item settles and its reaction runs\<close>


lemma settle_value:
  "state (heap w r) = Pending \<Longrightarrow> result (heap (settle (Fulfils r v) w) r) = v"
  "state (heap w r) = Pending \<Longrightarrow> reason (heap (settle (Rejects r v) w) r) = v"
  by (simp_all add: settleFulfilled_pending settleRejected_pending)


lemma settleRejected_frame:
  "microtasks (settleRejected p v s) =
     microtasks s @ (if state (heap s p) = Pending then onRejectedCallbacks (heap s p) else [])"
  "next_promise (settleRejected p v s) = next_promise s"
  "onRejectedCallbacks (heap (settleRejected p v s) p') =
     (if p' = p \<and> state (heap s p) = Pending then [] else onRejectedCallbacks (heap s p'))"
  "onFulfilledCallbacks (heap (settleRejected p v s) p') = onFulfilledCallbacks (heap s p')"
  by (cases "state (heap s p) = Pending"; simp add: settleRejected_pending)+







section \<open>The items settle one after the other, in any order\<close>







section \<open>all and allSettled on pending items\<close>




















end
